theory Spec2Isabelle
  imports Main "HOL-Library.AList" "HOL-Library.Multiset"
begin

section \<open>Strings: \<open>strings.Split\<close> and \<open>removeDoubleSlash\<close>\<close>

text \<open>
  Go strings are byte sequences; \<^typ>\<open>string\<close> is a list of bytes.  The separator
  of paths is the byte \<open>/\<close>, the separator of a pattern's method is one space.
\<close>

abbreviation slash :: char where
  "slash \<equiv> CHR ''/''"

abbreviation space :: char where
  "space \<equiv> CHR '' ''"

text \<open>
  \<open>strings.Split(s, sep)\<close> for a separator of one byte: \<open>s\<close> is cut at every
  occurrence of \<open>sep\<close>, so \<open>n\<close> separators give \<open>n + 1\<close> fields and the empty
  string gives the one field \<open>""\<close>.
\<close>

fun strings_Split :: "string \<Rightarrow> char \<Rightarrow> string list" where
  "strings_Split [] sep = [[]]"
| "strings_Split (c # cs) sep =
     (if c = sep then [] # strings_Split cs sep
      else (case strings_Split cs sep of
              [] \<Rightarrow> [[c]]
            | w # ws \<Rightarrow> (c # w) # ws))"

text \<open>
  \<open>removeDoubleSlash\<close> replaces every match of the regular expression \<open>//+\<close> by
  \<open>/\<close>.  The matches are the maximal runs of two or more slashes (the match is
  leftmost and \<open>+\<close> is greedy), so a slash is dropped exactly when another slash
  follows it.
\<close>

fun removeDoubleSlash :: "string \<Rightarrow> string" where
  "removeDoubleSlash [] = []"
| "removeDoubleSlash [c] = [c]"
| "removeDoubleSlash (c # d # cs) =
     (if c = slash \<and> d = slash then removeDoubleSlash (d # cs)
      else c # removeDoubleSlash (d # cs))"

text \<open>
  \<open>splitPattern\<close> (the \<open>Mux\<close> file) and the \<open>switch\<close> inside
  \<open>ServeMuxBuilder.Pattern\<close> are the same code: two fields give the method with a
  space after it and the path, any other number of fields gives no method and the
  first field as the path.
\<close>

definition splitPattern :: "string \<Rightarrow> string \<times> string" where
  "splitPattern pattern =
     (case strings_Split pattern space of
        [m, p] \<Rightarrow> (m @ [space], p)
      | m # _ \<Rightarrow> ([], m)
      | [] \<Rightarrow> ([], []))"

section \<open>Middleware\<close>

text \<open>
  A \<open>Middleware\<close> is a function from handlers to handlers; the type of handlers is
  a parameter.  \<open>newHandler\<close> (both files of \<open>muxify.go\<close>) runs its index from
  \<open>len(mw) - 1\<close> down to \<open>0\<close>; the counter of \<open>newHandler_loop\<close> is that index
  plus one.
\<close>

type_synonym 'h Middleware = "'h \<Rightarrow> 'h"

fun newHandler_loop :: "'h Middleware list \<Rightarrow> nat \<Rightarrow> 'h \<Rightarrow> 'h" where
  "newHandler_loop mw 0 h = h"
| "newHandler_loop mw (Suc i) h = newHandler_loop mw i ((mw ! i) h)"

definition newHandler :: "'h Middleware list \<Rightarrow> 'h \<Rightarrow> 'h" where
  "newHandler mw h = newHandler_loop mw (length mw) h"

text \<open>
  \<open>NewHandler\<close> of \<open>main.go\<close> ranges over the middlewares from the first to the
  last: \<open>next = m(next)\<close>.
\<close>

fun NewHandler :: "'h Middleware list \<Rightarrow> 'h \<Rightarrow> 'h" where
  "NewHandler [] next = next"
| "NewHandler (m # mw) next = NewHandler mw (m next)"

text \<open>
  To observe the order of execution a handler is taken to be a function on the
  response written so far (a list of lines).  \<open>announce\<close> is the shape of
  \<open>Middleware1\<close> \dots \<open>Middleware4\<close> of \<open>main.go\<close>: write one line, then serve
  \<open>next\<close>.  \<open>endpoint\<close> is a handler that writes its line.
\<close>

type_synonym response = "string list"

definition announce :: "string \<Rightarrow> (response \<Rightarrow> response) Middleware" where
  "announce name next = (\<lambda>w. next (w @ [name]))"

definition endpoint :: "string \<Rightarrow> response \<Rightarrow> response" where
  "endpoint name = (\<lambda>w. w @ [name])"

section \<open>The builder tree of \<open>muxify.go\<close>: \<open>ServeMuxBuilder\<close>\<close>

text \<open>
  A \<open>*ServeMuxBuilder\<close> is an address: the index of the node in the store, a list
  of nodes in the order of their allocation.  The Go map \<open>Patterns\<close> is an
  association list with distinct keys; storing under a key that is present replaces
  the handler in place (\<^const>\<open>AList.update\<close>).  Go ranges over a map in an order
  it does not specify; the model ranges in the order of the list.
\<close>

record 'h ServeMuxBuilder =
  Patterns :: "(string \<times> 'h) list"
  PatternPrefix :: string
  Middlewares :: "'h Middleware list"
  Root :: nat
  Parent :: nat
  SubServeMuxBuilder :: "nat list"
  executedBuild :: bool
  registeredPatterns :: "string list"

type_synonym 'h store = "'h ServeMuxBuilder list"

definition NewServeMuxBuilder :: "'h store \<Rightarrow> 'h store \<times> nat" where
  "NewServeMuxBuilder s =
     (s @ [\<lparr>Patterns = [], PatternPrefix = [], Middlewares = [],
            Root = length s, Parent = length s, SubServeMuxBuilder = [],
            executedBuild = False, registeredPatterns = []\<rparr>],
      length s)"

definition Use :: "'h store \<Rightarrow> nat \<Rightarrow> 'h Middleware list \<Rightarrow> 'h store" where
  "Use s b middleware =
     s[b := (s ! b)\<lparr>Middlewares := Middlewares (s ! b) @ middleware\<rparr>]"

text \<open>
  The first lines of \<open>Prefix\<close>, the same in \<open>ServeMuxBuilder.Prefix\<close> and in
  \<open>Mux.Prefix\<close>: a prefix that is not empty and does not start with a slash gets
  one in front.
\<close>

definition leading_slash :: "string \<Rightarrow> string" where
  "leading_slash prefix =
     (if length prefix > 0 then
        (if hd prefix \<noteq> slash then slash # prefix else prefix)
      else prefix)"

definition set_PatternPrefix :: "'h store \<Rightarrow> nat \<Rightarrow> string \<Rightarrow> 'h store" where
  "set_PatternPrefix s b p = s[b := (s ! b)\<lparr>PatternPrefix := p\<rparr>]"

definition Prefix :: "'h store \<Rightarrow> nat \<Rightarrow> string \<Rightarrow> 'h store" where
  "Prefix s b prefix = set_PatternPrefix s b (leading_slash prefix)"

text \<open>
  \<open>Subrouter\<close>: the new node's middlewares are appended to its empty list from the
  parent's list, or from the root's when the parent is the root; the new node goes
  to the end of the receiver's children.
\<close>

definition Subrouter :: "'h store \<Rightarrow> nat \<Rightarrow> 'h store \<times> nat" where
  "Subrouter s b =
     (let (s1, subBuilder) = NewServeMuxBuilder s;
          s2 = s1[subBuilder := (s1 ! subBuilder)\<lparr>Parent := b\<rparr>];
          s3 = s2[subBuilder := (s2 ! subBuilder)\<lparr>Root := Root (s2 ! b)\<rparr>];
          s4 = (if Parent (s3 ! subBuilder) \<noteq> Root (s3 ! b) then
                  s3[subBuilder := (s3 ! subBuilder)
                       \<lparr>Middlewares := Middlewares (s3 ! subBuilder)
                                        @ Middlewares (s3 ! Parent (s3 ! subBuilder))\<rparr>]
                else
                  s3[subBuilder := (s3 ! subBuilder)
                       \<lparr>Middlewares := Middlewares (s3 ! subBuilder)
                                        @ Middlewares (s3 ! Root (s3 ! b))\<rparr>]);
          s5 = s4[b := (s4 ! b)
                    \<lparr>SubServeMuxBuilder := SubServeMuxBuilder (s4 ! b) @ [subBuilder]\<rparr>]
      in (s5, subBuilder))"

text \<open>
  \<open>Pattern\<close>, line by line.  The prefix of the receiver is saved, reset, and set to
  the root's; the two nested loops then overwrite it with the prefix of every node
  found in the children lists of the parent's children, when the parent is not the
  root (the stores are threaded through the loops, because the node read may be the
  receiver itself); the saved prefix is appended; the patterns are stored; the
  receiver is appended to its own children.
\<close>

definition Pattern_scan :: "'h store \<Rightarrow> nat \<Rightarrow> 'h store" where
  "Pattern_scan s b =
     fold (\<lambda>subBuilder s1.
             if Parent (s1 ! b) \<noteq> Root (s1 ! b) then
               fold (\<lambda>subSubBuilder s2.
                       set_PatternPrefix s2 b (PatternPrefix (s2 ! subSubBuilder)))
                    (SubServeMuxBuilder (s1 ! subBuilder)) s1
             else s1)
          (SubServeMuxBuilder (s ! Parent (s ! b))) s"

definition Pattern_store :: "'h store \<Rightarrow> nat \<Rightarrow> string \<times> 'h \<Rightarrow> 'h store" where
  "Pattern_store s b ph =
     (let (method, patternPath) = splitPattern (fst ph) in
        s[b := (s ! b)\<lparr>Patterns :=
               AList.update
                 (method @ removeDoubleSlash (PatternPrefix (s ! b) @ patternPath))
                 (snd ph) (Patterns (s ! b))\<rparr>])"

definition Pattern :: "'h store \<Rightarrow> nat \<Rightarrow> (string \<times> 'h) list \<Rightarrow> 'h store" where
  "Pattern s b patterns =
     (let patternPrefix = PatternPrefix (s ! b);
          s1 = set_PatternPrefix s b [];
          s2 = set_PatternPrefix s1 b (PatternPrefix (s1 ! Root (s1 ! b)));
          s3 = Pattern_scan s2 b;
          s4 = set_PatternPrefix s3 b (PatternPrefix (s3 ! b) @ patternPrefix);
          s5 = fold (\<lambda>ph s'. Pattern_store s' b ph) patterns s4
      in s5[b := (s5 ! b)
              \<lparr>SubServeMuxBuilder := SubServeMuxBuilder (s5 ! b) @ [b]\<rparr>])"

subsection \<open>\<open>Build\<close>\<close>

text \<open>
  \<open>http.ServeMux\<close> is not part of the repository: its \<open>Handle\<close> is a parameter
  \<open>handle\<close>, which returns the new mux or the value it panics with, and the empty
  \<open>http.ServeMux{}\<close> is a parameter too.  A panic leaves \<open>Build\<close> at once.  An
  address outside the store stands for a nil pointer, whose dereference panics.
\<close>

datatype 'e panic = NilDereference | HandlePanic 'e

type_synonym ('m, 'h, 'e) Handle = "'m \<Rightarrow> string \<Rightarrow> 'h \<Rightarrow> 'e + 'm"

text \<open>
  The inner loop of \<open>Build\<close> over \<open>current.Patterns\<close>; \<open>rp\<close> is
  \<open>b.Root.registeredPatterns\<close>, the one field that the traversal writes.  A Go map
  is ranged in an order that is not specified and may change from one loop to the
  next: the list \<open>Patterns\<close> is the order in which this loop sees the entries, and a
  statement about a second loop over the same map takes for it any reordering of the
  list (\<open>reordered\<close> below).
\<close>

fun Build_patterns ::
  "('m, 'h, 'e) Handle \<Rightarrow> 'h Middleware list \<Rightarrow> (string \<times> 'h) list \<Rightarrow> string list \<Rightarrow> 'm
     \<Rightarrow> string list \<times> ('e panic + 'm)" where
  "Build_patterns handle mws [] rp mux = (rp, Inr mux)"
| "Build_patterns handle mws ((pattern, handler) # ps) rp mux =
     (case handle mux pattern (newHandler mws handler) of
        Inl e \<Rightarrow> (rp @ [pattern], Inl (HandlePanic e))
      | Inr mux' \<Rightarrow> Build_patterns handle mws ps (rp @ [pattern]) mux')"

text \<open>
  The loop over the queue.  \<open>visited\<close> is the map \<open>visited\<close> of the source, kept as
  the list of its keys in the order in which they were marked.
\<close>

function Build_loop ::
  "('m, 'h, 'e) Handle \<Rightarrow> 'h store \<Rightarrow> nat list \<Rightarrow> nat list \<Rightarrow> string list \<Rightarrow> 'm
     \<Rightarrow> nat list \<times> string list \<times> ('e panic + 'm)" where
  "Build_loop handle s [] visited rp mux = (visited, rp, Inr mux)"
| "Build_loop handle s (current # queue) visited rp mux =
     (if current \<in> set visited then Build_loop handle s queue visited rp mux
      else if length s \<le> current then (visited @ [current], rp, Inl NilDereference)
      else
        (case Build_patterns handle (Middlewares (s ! current)) (Patterns (s ! current)) rp mux of
           (rp', Inl e) \<Rightarrow> (visited @ [current], rp', Inl e)
         | (rp', Inr mux') \<Rightarrow>
             Build_loop handle s (queue @ SubServeMuxBuilder (s ! current))
               (visited @ [current]) rp' mux'))"
  by pat_completeness simp_all

lemma unvisited_less:
  assumes "current \<notin> set visited" and "\<not> n \<le> current"
  shows "card ({..<n} - set (visited @ [current])) < card ({..<n::nat} - set visited)"
proof (rule psubset_card_mono)
  show "finite ({..<n} - set visited)"
    by simp
  have "current \<in> {..<n} - set visited"
    using assms by simp
  moreover have "current \<notin> {..<n} - set (visited @ [current])"
    by simp
  moreover have "{..<n} - set (visited @ [current]) \<subseteq> {..<n} - set visited"
    by auto
  ultimately show "{..<n} - set (visited @ [current]) \<subset> {..<n} - set visited"
    by blast
qed

termination Build_loop
  apply (relation "measures [\<lambda>(handle, s, queue, visited, rp, mux). card ({..<length s} - set visited),
                             \<lambda>(handle, s, queue, visited, rp, mux). length queue]")
  subgoal by simp
  subgoal by simp
  subgoal premises p for handle s current queue visited rp mux x y b
    by (rule measures_less) (simp only: prod.case unvisited_less [OF p(1) p(2)])
  done

text \<open>
  \<open>Build\<close> always starts from the root of the receiver.  \<open>executedBuild\<close> is set
  by the last statement, which a panic does not reach.
\<close>

definition Build ::
  "('m, 'h, 'e) Handle \<Rightarrow> 'm \<Rightarrow> 'h store \<Rightarrow> nat \<Rightarrow> 'h store \<times> ('e panic + 'm)" where
  "Build handle emptyMux s b =
     (let root = Root (s ! b) in
        case Build_loop handle s [root] [] (registeredPatterns (s ! root)) emptyMux of
          (visited, rp, Inl e) \<Rightarrow>
            (s[root := (s ! root)\<lparr>registeredPatterns := rp\<rparr>], Inl e)
        | (visited, rp, Inr mux) \<Rightarrow>
            (s[root := (s ! root)\<lparr>registeredPatterns := rp, executedBuild := True\<rparr>],
             Inr mux))"

text \<open>
  Two dispatchers for running \<open>Build\<close> on examples.  \<open>accept_Handle\<close> takes the
  registration and keeps the calls in their order, as \<open>http.ServeMux.Handle\<close> does
  for well-formed patterns that do not conflict: it is used on such patterns only.
\<close>

definition accept_Handle :: "((string \<times> 'h) list, 'h, unit) Handle" where
  "accept_Handle mux pattern handler = Inr (mux @ [(pattern, handler)])"

text \<open>
  \<open>http.ServeMux.Handle\<close> panics when the pattern conflicts with one that is
  registered, and its message names the patterns; the specification says of the
  collaborator that ``double-registration of the same pattern on the same sink is
  itself an error condition''.  \<open>strict_Handle\<close> is this check for equal patterns,
  with the pattern as the value of the panic.
\<close>

definition strict_Handle :: "((string \<times> 'h) list, 'h, string) Handle" where
  "strict_Handle mux pattern handler =
     (if pattern \<in> set (map fst mux) then Inl pattern
      else Inr (mux @ [(pattern, handler)]))"

text \<open>
  The addresses in the children lists are allocated: what every store built by
  \<open>NewServeMuxBuilder\<close>, \<open>Subrouter\<close> and \<open>Pattern\<close> satisfies.
\<close>

definition children_allocated :: "'h store \<Rightarrow> bool" where
  "children_allocated s =
     list_all (\<lambda>n. list_all (\<lambda>c. c < length s) (SubServeMuxBuilder n)) s"

text \<open>No two slashes in a row.\<close>

fun no_double_slash :: "string \<Rightarrow> bool" where
  "no_double_slash [] = True"
| "no_double_slash [c] = True"
| "no_double_slash (c # d # cs) = (\<not> (c = slash \<and> d = slash) \<and> no_double_slash (d # cs))"

section \<open>The flat wrapper of \<open>muxify.go\<close>: \<open>Mux\<close>\<close>

text \<open>
  A \<open>Mux\<close> owns its prefix and its middlewares; the \<open>http.ServeMux\<close> and the list of
  registered patterns are behind pointers that \<open>Subrouter\<close> copies, so every mux
  derived from one \<open>NewMux\<close> writes to the same two objects: the record
  \<open>Mux_shared\<close>.
\<close>

record 'h Mux =
  patternPrefix_m :: string
  middlewares_m :: "'h Middleware list"

record 'm Mux_shared =
  muxify :: 'm
  registeredPatterns_m :: "string list"

definition NewMux :: "'m \<Rightarrow> 'h Mux \<times> 'm Mux_shared" where
  "NewMux emptyMux =
     (\<lparr>patternPrefix_m = [], middlewares_m = []\<rparr>,
      \<lparr>muxify = emptyMux, registeredPatterns_m = []\<rparr>)"

text \<open>\<open>Mux.Prefix\<close> ends with \<open>mux.patternPrefix += prefix\<close>.\<close>

definition Mux_Prefix :: "'h Mux \<Rightarrow> string \<Rightarrow> 'h Mux" where
  "Mux_Prefix mux prefix =
     mux\<lparr>patternPrefix_m := patternPrefix_m mux @ leading_slash prefix\<rparr>"

definition Mux_Handle ::
  "('m, 'h, 'e) Handle \<Rightarrow> 'm Mux_shared \<Rightarrow> 'h Mux \<Rightarrow> string \<Rightarrow> 'h \<Rightarrow> 'e + 'm Mux_shared" where
  "Mux_Handle handle sh mux pattern handler =
     (let (method, patternPath) = splitPattern pattern;
          pattern' = method @ patternPrefix_m mux @ patternPath
      in case handle (muxify sh) pattern' (newHandler (middlewares_m mux) handler) of
           Inl e \<Rightarrow> Inl e
         | Inr m \<Rightarrow>
             Inr (sh\<lparr>muxify := m,
                     registeredPatterns_m := registeredPatterns_m sh @ [pattern']\<rparr>))"

section \<open>The prototype of \<open>main.go\<close>: \<open>XXSMux\<close>\<close>

text \<open>
  \<open>NewXXSMux\<close> leaves \<open>root\<close> and \<open>parent\<close> nil (\<open>None\<close>); \<open>main\<close> sets both to the
  router itself.  \<open>Subrouter\<close> reads \<open>mux.root.middlewares\<close>, which panics on a nil
  root: the result \<open>None\<close>.  A slice is nil exactly when it is empty here, since
  \<open>Use\<close> is the only writer.
\<close>

record 'h XXSMux =
  patterns_x :: "(string \<times> 'h) list"
  patternPrefix_x :: string
  middlewares_x :: "'h Middleware list"
  root_x :: "nat option"
  parent_x :: "nat option"
  subXXSMux :: "nat list"

type_synonym 'h xstore = "'h XXSMux list"

definition NewXXSMux :: "'h xstore \<Rightarrow> 'h xstore \<times> nat" where
  "NewXXSMux s =
     (s @ [\<lparr>patterns_x = [], patternPrefix_x = [], middlewares_x = [],
            root_x = None, parent_x = None, subXXSMux = []\<rparr>],
      length s)"

text \<open>The first three statements of \<open>main\<close>.\<close>

definition main_router :: "'h xstore \<Rightarrow> 'h xstore \<times> nat" where
  "main_router s =
     (let (s1, router) = NewXXSMux s;
          s2 = s1[router := (s1 ! router)\<lparr>root_x := Some router\<rparr>];
          s3 = s2[router := (s2 ! router)\<lparr>parent_x := Some router\<rparr>]
      in (s3, router))"

definition Use_x :: "'h xstore \<Rightarrow> nat \<Rightarrow> 'h Middleware list \<Rightarrow> 'h xstore" where
  "Use_x s mux middleware =
     s[mux := (s ! mux)\<lparr>middlewares_x := middlewares_x (s ! mux) @ middleware\<rparr>]"

definition Prefix_x :: "'h xstore \<Rightarrow> nat \<Rightarrow> string \<Rightarrow> 'h xstore" where
  "Prefix_x s mux prefix = s[mux := (s ! mux)\<lparr>patternPrefix_x := prefix\<rparr>]"

definition Subrouter_x :: "'h xstore \<Rightarrow> nat \<Rightarrow> ('h xstore \<times> nat) option" where
  "Subrouter_x s mux =
     (let (s1, subMux) = NewXXSMux s;
          s2 = s1[subMux := (s1 ! subMux)\<lparr>parent_x := Some mux\<rparr>];
          s3 = s2[subMux := (s2 ! subMux)\<lparr>root_x := root_x (s2 ! mux)\<rparr>]
      in case root_x (s3 ! mux) of
           None \<Rightarrow> None
         | Some r \<Rightarrow>
             (let s4 = (if middlewares_x (s3 ! r) \<noteq> [] \<and> subMux \<noteq> r then
                          s3[subMux := (s3 ! subMux)
                               \<lparr>middlewares_x := middlewares_x (s3 ! subMux)
                                                  @ middlewares_x (s3 ! r)\<rparr>]
                        else s3);
                  s5 = s4[mux := (s4 ! mux)\<lparr>subXXSMux := subXXSMux (s4 ! mux) @ [subMux]\<rparr>]
              in Some (s5, subMux)))"

text \<open>
  \<open>XXSMux.Pattern\<close>.  The stored prefix is saved and reset, then set to the root's
  prefix and a slash; the scan over the children of the parent overwrites it with
  the prefix of each entry of an inner children list and a slash, for a child of the
  root only in the inner list of the receiver itself; then the saved prefix is
  appended.  Each key is \<open>strings.Split(pattern, " ")[1]\<close> after the prefix: the index
  panics when the pattern has no space.  A nil \<open>root\<close> or \<open>parent\<close> panics as well.
  The result \<open>None\<close> is a panic.
\<close>

definition set_patternPrefix_x :: "'h xstore \<Rightarrow> nat \<Rightarrow> string \<Rightarrow> 'h xstore" where
  "set_patternPrefix_x s mux p = s[mux := (s ! mux)\<lparr>patternPrefix_x := p\<rparr>]"

definition Pattern_x_inner :: "'h xstore \<Rightarrow> nat \<Rightarrow> nat \<Rightarrow> 'h xstore" where
  "Pattern_x_inner s mux subMux =
     fold (\<lambda>subSubMux s2. set_patternPrefix_x s2 mux (patternPrefix_x (s2 ! subSubMux) @ [slash]))
          (subXXSMux (s ! subMux)) s"

definition Pattern_x_scan :: "'h xstore \<Rightarrow> nat \<Rightarrow> nat \<Rightarrow> 'h xstore" where
  "Pattern_x_scan s mux parent =
     fold (\<lambda>subMux s1.
             if parent_x (s1 ! mux) = root_x (s1 ! mux) then
               (if subMux = mux then Pattern_x_inner s1 mux subMux else s1)
             else Pattern_x_inner s1 mux subMux)
          (subXXSMux (s ! parent)) s"

fun Pattern_x_store :: "'h xstore \<Rightarrow> nat \<Rightarrow> (string \<times> 'h) list \<Rightarrow> 'h xstore option" where
  "Pattern_x_store s mux [] = Some s"
| "Pattern_x_store s mux ((pattern, handler) # ps) =
     (case strings_Split pattern space of
        _ # path # _ \<Rightarrow>
          Pattern_x_store
            (s[mux := (s ! mux)\<lparr>patterns_x :=
                 AList.update (removeDoubleSlash (patternPrefix_x (s ! mux) @ path)) handler
                   (patterns_x (s ! mux))\<rparr>])
            mux ps
      | _ \<Rightarrow> None)"

definition Pattern_x :: "'h xstore \<Rightarrow> nat \<Rightarrow> (string \<times> 'h) list \<Rightarrow> 'h xstore option" where
  "Pattern_x s mux patterns =
     (let patternPrefix = patternPrefix_x (s ! mux);
          s1 = set_patternPrefix_x s mux []
      in case root_x (s1 ! mux) of
           None \<Rightarrow> None
         | Some root \<Rightarrow>
             (let s2 = set_patternPrefix_x s1 mux (patternPrefix_x (s1 ! root) @ [slash])
              in case parent_x (s2 ! mux) of
                   None \<Rightarrow> None
                 | Some parent \<Rightarrow>
                     (let s3 = Pattern_x_scan s2 mux parent;
                          s4 = set_patternPrefix_x s3 mux (patternPrefix_x (s3 ! mux) @ patternPrefix)
                      in case Pattern_x_store s4 mux patterns of
                           None \<Rightarrow> None
                         | Some s5 \<Rightarrow>
                             Some (s5[mux := (s5 ! mux)
                                     \<lparr>subXXSMux := subXXSMux (s5 ! mux) @ [mux]\<rparr>]))))"

text \<open>
  \<open>XXSMux.Build\<close> is the same loop as \<open>ServeMuxBuilder.Build\<close>, started at the
  receiver instead of the root, on a serve mux given by the caller and with
  \<open>NewHandler\<close> for the middlewares.  The list of visited nodes is returned with the
  serve mux.
\<close>

fun Build_x_patterns ::
  "('m, 'h, 'e) Handle \<Rightarrow> 'h Middleware list \<Rightarrow> (string \<times> 'h) list \<Rightarrow> 'm \<Rightarrow> 'e panic + 'm" where
  "Build_x_patterns handle mws [] mux = Inr mux"
| "Build_x_patterns handle mws ((pattern, handler) # ps) mux =
     (case handle mux pattern (NewHandler mws handler) of
        Inl e \<Rightarrow> Inl (HandlePanic e)
      | Inr mux' \<Rightarrow> Build_x_patterns handle mws ps mux')"

function Build_x_loop ::
  "('m, 'h, 'e) Handle \<Rightarrow> 'h xstore \<Rightarrow> nat list \<Rightarrow> nat list \<Rightarrow> 'm \<Rightarrow> nat list \<times> ('e panic + 'm)" where
  "Build_x_loop handle s [] visited mux = (visited, Inr mux)"
| "Build_x_loop handle s (current # queue) visited mux =
     (if current \<in> set visited then Build_x_loop handle s queue visited mux
      else if length s \<le> current then (visited @ [current], Inl NilDereference)
      else
        (case Build_x_patterns handle (middlewares_x (s ! current)) (patterns_x (s ! current)) mux of
           Inl e \<Rightarrow> (visited @ [current], Inl e)
         | Inr mux' \<Rightarrow>
             Build_x_loop handle s (queue @ subXXSMux (s ! current)) (visited @ [current]) mux'))"
  by pat_completeness simp_all

termination Build_x_loop
  apply (relation "measures [\<lambda>(handle, s, queue, visited, mux). card ({..<length s} - set visited),
                             \<lambda>(handle, s, queue, visited, mux). length queue]")
  subgoal by simp
  subgoal by simp
  subgoal premises p for handle s current queue visited mux x
    by (rule measures_less) (simp only: prod.case unvisited_less [OF p(1) p(2)])
  done

definition Build_x ::
  "('m, 'h, 'e) Handle \<Rightarrow> 'm \<Rightarrow> 'h xstore \<Rightarrow> nat \<Rightarrow> nat list \<times> ('e panic + 'm)" where
  "Build_x handle defaultServeMux s mux = Build_x_loop handle s [mux] [] defaultServeMux"

text \<open>
  Middlewares for the examples: a handler is the list of the names wrapped around
  it, outermost first.
\<close>

definition wrap :: "string \<Rightarrow> string list Middleware" where
  "wrap name next = name # next"

section \<open>Auxiliary definitions for the statements\<close>

text \<open>
  What \<open>Pattern\<close> puts in front of the receiver's stored prefix: the prefix that the
  receiver has after the reset, the copy of the root's prefix and the scan.
\<close>

definition Pattern_base :: "'h store \<Rightarrow> nat \<Rightarrow> string" where
  "Pattern_base s b =
     PatternPrefix
       (Pattern_scan
          (set_PatternPrefix s b
             (if Root (s ! b) = b then [] else PatternPrefix (s ! Root (s ! b)))) b ! b)"

text \<open>
  The ancestor-chain join of the specification: the fragments from the root down,
  each after one separator, with repeated separators collapsed.
\<close>

definition spec_effective_prefix :: "string list \<Rightarrow> string" where
  "spec_effective_prefix fragments = removeDoubleSlash (concat (map (\<lambda>p. slash # p) fragments))"

text \<open>
  Example trees.  A handler of the examples is the list of the names wrapped
  around it.  The root is the first node allocated (address \<open>0\<close>), its subrouter
  the second, and so on; the theorems that use the trees state the addresses that
  \<open>NewServeMuxBuilder\<close> and \<open>Subrouter\<close> return.
\<close>

definition tree_v1 :: "string list store" where
  "tree_v1 = Prefix (fst (NewServeMuxBuilder [])) 0 ''v1''"

definition two_level_tree :: "string list store" where
  "two_level_tree = Prefix (fst (Subrouter tree_v1 0)) 1 ''a''"

definition tree_v1_v2 :: "string list store" where
  "tree_v1_v2 = Prefix (fst (Subrouter tree_v1 0)) 1 ''v2/{id}''"

definition tree_v1_v2_foobar :: "string list store" where
  "tree_v1_v2_foobar = Prefix (fst (Subrouter tree_v1_v2 1)) 2 ''foobar''"

definition tree_main_order :: "string list store" where
  "tree_main_order =
     Prefix (fst (Subrouter
       (Pattern (Prefix (fst (Subrouter
          (Pattern tree_v1 0 [(''GET /ping'', [''ping''])]) 0)) 1 ''v2/{id}'') 1 [(''GET /test'', [''test''])])
       1)) 2 ''foobar''"

text \<open>
  The scenario of the specification: the root with prefix \<open>v1\<close>, middleware
  \<open>Auth\<close> and the pattern \<open>GET /ping\<close>; a subrouter with prefix \<open>admin\<close>, middleware
  \<open>AdminOnly\<close> and the pattern \<open>GET /secret\<close>.  Both nodes have called \<open>Pattern\<close>,
  so both are in their own children lists.
\<close>

definition scenario_root :: "string list store" where
  "scenario_root =
     Pattern (Use (Prefix (fst (NewServeMuxBuilder [])) 0 ''v1'') 0 [wrap ''Auth'']) 0
       [(''GET /ping'', [''ping''])]"

definition scenario_tree :: "string list store" where
  "scenario_tree =
     Pattern (Use (Prefix (fst (Subrouter scenario_root 0)) 1 ''admin'') 1 [wrap ''AdminOnly'']) 1
       [(''GET /secret'', [''secret''])]"

text \<open>Two subrouters of one root with the same prefix and the same pattern.\<close>

definition colliding_first :: "string list store" where
  "colliding_first =
     Pattern (Prefix (fst (Subrouter tree_v1 0)) 1 ''a'') 1 [(''GET /x'', [''first''])]"

definition colliding_tree :: "string list store" where
  "colliding_tree =
     Pattern (Prefix (fst (Subrouter colliding_first 0)) 2 ''a'') 2 [(''GET /x'', [''second''])]"

text \<open>
  The first key of a list that is in \<open>seen\<close> or earlier in the list.
\<close>

fun first_duplicate :: "string list \<Rightarrow> string list \<Rightarrow> string option" where
  "first_duplicate seen [] = None"
| "first_duplicate seen (k # ks) =
     (if k \<in> set seen then Some k else first_duplicate (seen @ [k]) ks)"

text \<open>
  The same Go heap up to the order in which the maps \<open>Patterns\<close> are ranged.
\<close>

definition reordered :: "'h store \<Rightarrow> 'h store \<Rightarrow> bool" where
  "reordered s s' =
     list_all2 (\<lambda>n n'. mset (Patterns n') = mset (Patterns n) \<and> n' = n\<lparr>Patterns := Patterns n'\<rparr>) s s'"

text \<open>
  A root with two patterns; the store that \<open>Build\<close> leaves; and that store with the
  two patterns in the other order.
\<close>

definition two_patterns :: "string list store" where
  "two_patterns = Pattern tree_v1 0 [(''GET /a'', [''a'']), (''GET /b'', [''b''])]"

definition two_patterns_built :: "string list store" where
  "two_patterns_built = fst (Build strict_Handle [] two_patterns 0)"

definition two_patterns_other_order :: "string list store" where
  "two_patterns_other_order =
     two_patterns_built[0 := (two_patterns_built ! 0)\<lparr>Patterns := rev (Patterns (two_patterns_built ! 0))\<rparr>]"

text \<open>
  A tree of \<open>main.go\<close>: the router uses \<open>A\<close>, its subrouter uses \<open>B\<close>.
\<close>

definition x_root :: "string list xstore" where
  "x_root = Use_x (fst (main_router [])) 0 [wrap ''A'']"

definition x_child :: "string list xstore" where
  "x_child = Use_x (fst (the (Subrouter_x x_root 0))) 1 [wrap ''B'']"

text \<open>
  The scenario in \<open>main.go\<close>: the router has prefix \<open>v1\<close> and a pattern, its subrouter
  has prefix \<open>admin\<close>, uses \<open>B\<close> and has a pattern.  And the router alone, with its
  prefix and no \<open>Pattern\<close> call yet.
\<close>

definition x_scenario :: "string list xstore" where
  "x_scenario =
     the (Pattern_x
       (Use_x (Prefix_x (fst (the (Subrouter_x
          (the (Pattern_x (Prefix_x x_root 0 ''v1'') 0 [(''GET /ping'', [''ping''])])) 0))) 1 ''admin'')
          1 [wrap ''B''])
       1 [(''GET /secret'', [''secret''])])"

definition x_v1 :: "string list xstore" where
  "x_v1 = Prefix_x x_root 0 ''v1''"

text \<open>
  The tree of the specification's example in \<open>main.go\<close>, built by \<open>Prefix\<close> and
  \<open>Subrouter\<close> calls only; the root's prefix is given with its slash, since
  \<open>XXSMux.Prefix\<close> adds none.
\<close>

definition x_v1_v2_foobar :: "string list xstore" where
  "x_v1_v2_foobar =
     Prefix_x (fst (the (Subrouter_x
       (Prefix_x (fst (the (Subrouter_x (Prefix_x x_root 0 ''/v1'') 0))) 1 ''v2/{id}'') 1))) 2 ''foobar''"

text \<open>
  What \<open>Build\<close> passes to \<open>Handle\<close> for one node, and for a list of nodes in order.
\<close>

definition node_registrations :: "'h store \<Rightarrow> nat \<Rightarrow> (string \<times> 'h) list" where
  "node_registrations s n =
     map (\<lambda>(pattern, handler). (pattern, newHandler (Middlewares (s ! n)) handler)) (Patterns (s ! n))"

definition registrations :: "'h store \<Rightarrow> nat list \<Rightarrow> (string \<times> 'h) list" where
  "registrations s ns = concat (map (node_registrations s) ns)"

text \<open>The same for \<open>XXSMux\<close>.\<close>

definition children_allocated_x :: "'h xstore \<Rightarrow> bool" where
  "children_allocated_x s =
     list_all (\<lambda>n. list_all (\<lambda>c. c < length s) (subXXSMux n)) s"

definition node_registrations_x :: "'h xstore \<Rightarrow> nat \<Rightarrow> (string \<times> 'h) list" where
  "node_registrations_x s n =
     map (\<lambda>(pattern, handler). (pattern, NewHandler (middlewares_x (s ! n)) handler)) (patterns_x (s ! n))"

definition registrations_x :: "'h xstore \<Rightarrow> nat list \<Rightarrow> (string \<times> 'h) list" where
  "registrations_x s ns = concat (map (node_registrations_x s) ns)"

section \<open>Properties of the middleware chain\<close>

lemma newHandler_loop_foldr:
  "i \<le> length mw \<Longrightarrow> newHandler_loop mw i h = foldr (\<lambda>m x. m x) (take i mw) h"
proof (induction i arbitrary: h)
  case 0
  then show ?case by simp
next
  case (Suc i)
  then have "take (Suc i) mw = take i mw @ [mw ! i]"
    by (simp add: take_Suc_conv_app_nth)
  with Suc show ?case by simp
qed

lemma newHandler_foldr: "newHandler mw h = foldr (\<lambda>m x. m x) mw h"
  by (simp add: newHandler_def newHandler_loop_foldr)

lemma newHandler_Nil: "newHandler [] h = h"
  by (simp add: newHandler_foldr)

lemma newHandler_Cons: "newHandler (m # mw) h = m (newHandler mw h)"
  by (simp add: newHandler_foldr)

lemma newHandler_announce:
  "newHandler (map announce names) (endpoint e) w = w @ names @ [e]"
  by (induction names arbitrary: w) (simp_all add: newHandler_Nil newHandler_Cons announce_def endpoint_def)

lemma NewHandler_announce:
  "NewHandler (map announce names) h w = h (w @ rev names)"
  by (induction names arbitrary: h w) (simp_all add: announce_def)

section \<open>Strings\<close>

lemma strings_Split_not_Nil: "strings_Split p sep \<noteq> []"
  by (induction p) (simp_all split: list.splits)

lemma strings_Split_no_sep: "sep \<notin> set p \<Longrightarrow> strings_Split p sep = [p]"
  by (induction p) auto

lemma strings_Split_first:
  "sep \<notin> set a \<Longrightarrow> strings_Split (a @ sep # r) sep = a # strings_Split r sep"
  by (induction a) auto

lemma splitPattern_no_space: "space \<notin> set p \<Longrightarrow> splitPattern p = ([], p)"
  by (simp add: splitPattern_def strings_Split_no_sep)

lemma splitPattern_one_space:
  "space \<notin> set m \<Longrightarrow> space \<notin> set q \<Longrightarrow> splitPattern (m @ space # q) = (m @ [space], q)"
  by (simp add: splitPattern_def strings_Split_first strings_Split_no_sep)

lemma splitPattern_more_spaces:
  assumes "space \<notin> set a" and "space \<notin> set b"
  shows "splitPattern (a @ space # b @ space # c) = ([], a)"
proof -
  obtain w ws where "strings_Split c space = w # ws"
    using strings_Split_not_Nil [of c space] by (cases "strings_Split c space") auto
  with assms show ?thesis
    by (simp add: splitPattern_def strings_Split_first)
qed

lemma hd_removeDoubleSlash: "removeDoubleSlash (c # cs) \<noteq> [] \<and> hd (removeDoubleSlash (c # cs)) = c"
  by (induction "c # cs" arbitrary: c cs rule: removeDoubleSlash.induct) auto

lemma no_double_slash_removeDoubleSlash: "no_double_slash (removeDoubleSlash t)"
proof (induction t rule: removeDoubleSlash.induct)
  case 1
  then show ?case by simp
next
  case (2 c)
  then show ?case by simp
next
  case (3 c d cs)
  obtain e es where e: "removeDoubleSlash (d # cs) = e # es" and "e = d"
    using hd_removeDoubleSlash [of d cs] by (cases "removeDoubleSlash (d # cs)") auto
  with 3 show ?case by auto
qed

subsection \<open>What \<open>set_PatternPrefix\<close> and \<open>Pattern\<close> leave alone\<close>

lemma length_set_PatternPrefix [simp]: "length (set_PatternPrefix s b p) = length s"
  by (simp add: set_PatternPrefix_def)

lemma set_PatternPrefix_twice [simp]:
  "set_PatternPrefix (set_PatternPrefix s b p) b q = set_PatternPrefix s b q"
  by (cases "b < length s") (simp_all add: set_PatternPrefix_def list_update_beyond)

lemma nth_set_PatternPrefix_same:
  "b < length s \<Longrightarrow> set_PatternPrefix s b p ! b = (s ! b)\<lparr>PatternPrefix := p\<rparr>"
  by (simp add: set_PatternPrefix_def)

lemma nth_set_PatternPrefix_other:
  "n \<noteq> b \<Longrightarrow> set_PatternPrefix s b p ! n = s ! n"
  by (simp add: set_PatternPrefix_def)

lemma scan_inner_frame:
  "\<exists>p. fold (\<lambda>subSubBuilder s2. set_PatternPrefix s2 b (PatternPrefix (s2 ! subSubBuilder)))
          xs (set_PatternPrefix s b q) = set_PatternPrefix s b p"
  by (induction xs arbitrary: q) auto

lemma Parent_set_PatternPrefix [simp]: "Parent (set_PatternPrefix s b p ! n) = Parent (s ! n)"
  by (cases "b < length s"; cases "n = b") (simp_all add: set_PatternPrefix_def list_update_beyond)

lemma Root_set_PatternPrefix [simp]: "Root (set_PatternPrefix s b p ! n) = Root (s ! n)"
  by (cases "b < length s"; cases "n = b") (simp_all add: set_PatternPrefix_def list_update_beyond)

lemma Sub_set_PatternPrefix [simp]:
  "SubServeMuxBuilder (set_PatternPrefix s b p ! n) = SubServeMuxBuilder (s ! n)"
  by (cases "b < length s"; cases "n = b") (simp_all add: set_PatternPrefix_def list_update_beyond)

lemma Patterns_set_PatternPrefix [simp]: "Patterns (set_PatternPrefix s b p ! n) = Patterns (s ! n)"
  by (cases "b < length s"; cases "n = b") (simp_all add: set_PatternPrefix_def list_update_beyond)

lemma Middlewares_set_PatternPrefix [simp]:
  "Middlewares (set_PatternPrefix s b p ! n) = Middlewares (s ! n)"
  by (cases "b < length s"; cases "n = b") (simp_all add: set_PatternPrefix_def list_update_beyond)

lemma scan_outer_frame:
  "\<exists>p. fold (\<lambda>subBuilder s1.
             if Parent (s1 ! b) \<noteq> Root (s1 ! b) then
               fold (\<lambda>subSubBuilder s2.
                       set_PatternPrefix s2 b (PatternPrefix (s2 ! subSubBuilder)))
                    (SubServeMuxBuilder (s1 ! subBuilder)) s1
             else s1) xs (set_PatternPrefix s b q) = set_PatternPrefix s b p"
proof (induction xs arbitrary: q)
  case Nil
  then show ?case by auto
next
  case (Cons x xs)
  show ?case
  proof (cases "Parent (s ! b) \<noteq> Root (s ! b)")
    case True
    obtain p where "fold (\<lambda>subSubBuilder s2. set_PatternPrefix s2 b (PatternPrefix (s2 ! subSubBuilder)))
          (SubServeMuxBuilder (s ! x)) (set_PatternPrefix s b q) = set_PatternPrefix s b p"
      using scan_inner_frame by blast
    with True Cons show ?thesis by simp
  next
    case False
    with Cons show ?thesis by simp
  qed
qed

lemma Pattern_scan_frame: "\<exists>p. Pattern_scan (set_PatternPrefix s b q) b = set_PatternPrefix s b p"
  unfolding Pattern_scan_def by (rule scan_outer_frame)

lemma Pattern_scan_root_child:
  assumes "Parent (s ! b) = Root (s ! b)"
  shows "Pattern_scan s b = s"
proof -
  have "fold (\<lambda>subBuilder s1.
             if Parent (s1 ! b) \<noteq> Root (s1 ! b) then
               fold (\<lambda>subSubBuilder s2.
                       set_PatternPrefix s2 b (PatternPrefix (s2 ! subSubBuilder)))
                    (SubServeMuxBuilder (s1 ! subBuilder)) s1
             else s1) xs s = s" for xs
    using assms by (induction xs) simp_all
  then show ?thesis by (simp add: Pattern_scan_def)
qed

section \<open>\<open>Pattern\<close> and the stored prefix\<close>

lemma nth_list_update_total:
  "s[b := x] ! n = (if n = b \<and> b < length s then x else s ! n)"
  by (cases "b < length s") (auto simp: list_update_beyond)

lemma length_Pattern_store [simp]: "length (Pattern_store s b ph) = length s"
  by (simp add: Pattern_store_def split: prod.splits)

lemma length_fold_Pattern_store [simp]:
  "length (fold (\<lambda>ph s'. Pattern_store s' b ph) ps s) = length s"
  by (induction ps arbitrary: s) simp_all

lemma PatternPrefix_Pattern_store [simp]:
  "PatternPrefix (Pattern_store s b ph ! n) = PatternPrefix (s ! n)"
  by (simp add: Pattern_store_def nth_list_update_total split: prod.splits)

lemma PatternPrefix_fold_Pattern_store [simp]:
  "PatternPrefix (fold (\<lambda>ph s'. Pattern_store s' b ph) ps s ! n) = PatternPrefix (s ! n)"
  by (induction ps arbitrary: s) simp_all

lemma Pattern_prefix:
  assumes "b < length s"
  shows "PatternPrefix (Pattern s b ps ! b) = Pattern_base s b @ PatternPrefix (s ! b)"
proof -
  let ?R = "if Root (s ! b) = b then [] else PatternPrefix (s ! Root (s ! b))"
  let ?s1 = "set_PatternPrefix s b []"
  have R: "PatternPrefix (?s1 ! Root (s ! b)) = ?R"
    using assms by (simp add: nth_set_PatternPrefix_same nth_set_PatternPrefix_other)
  let ?s2 = "set_PatternPrefix s b ?R"
  obtain p where p: "Pattern_scan ?s2 b = set_PatternPrefix s b p"
    using Pattern_scan_frame by blast
  then have base: "Pattern_base s b = p"
    using assms by (simp add: Pattern_base_def nth_set_PatternPrefix_same)
  have "PatternPrefix (Pattern s b ps ! b) = p @ PatternPrefix (s ! b)"
    using assms p
    by (simp add: Pattern_def Let_def R nth_list_update_total nth_set_PatternPrefix_same)
  with base show ?thesis by simp
qed

lemma Pattern_base_root: "Root (s ! b) = b \<Longrightarrow> Parent (s ! b) = b \<Longrightarrow> b < length s \<Longrightarrow> Pattern_base s b = []"
  by (simp add: Pattern_base_def Pattern_scan_root_child nth_set_PatternPrefix_same)

lemma Pattern_base_root_child:
  "Parent (s ! b) = Root (s ! b) \<Longrightarrow> Root (s ! b) \<noteq> b \<Longrightarrow> b < length s \<Longrightarrow>
     Pattern_base s b = PatternPrefix (s ! Root (s ! b))"
  by (simp add: Pattern_base_def Pattern_scan_root_child nth_set_PatternPrefix_same)

lemma Pattern_store_eq:
  "Pattern_store s b ph =
     s[b := (s ! b)\<lparr>Patterns :=
            AList.update
              (fst (splitPattern (fst ph)) @ removeDoubleSlash (PatternPrefix (s ! b) @ snd (splitPattern (fst ph))))
              (snd ph) (Patterns (s ! b))\<rparr>]"
  by (simp add: Pattern_store_def split: prod.splits)

lemma fields_Pattern_store [simp]:
  "Root (Pattern_store s b ph ! n) = Root (s ! n)"
  "Parent (Pattern_store s b ph ! n) = Parent (s ! n)"
  "SubServeMuxBuilder (Pattern_store s b ph ! n) = SubServeMuxBuilder (s ! n)"
  "Middlewares (Pattern_store s b ph ! n) = Middlewares (s ! n)"
  "executedBuild (Pattern_store s b ph ! n) = executedBuild (s ! n)"
  "registeredPatterns (Pattern_store s b ph ! n) = registeredPatterns (s ! n)"
  by (simp_all add: Pattern_store_eq nth_list_update_total)

lemma fields_fold_Pattern_store [simp]:
  "Root (fold (\<lambda>ph s'. Pattern_store s' b ph) ps s ! n) = Root (s ! n)"
  "Parent (fold (\<lambda>ph s'. Pattern_store s' b ph) ps s ! n) = Parent (s ! n)"
  "SubServeMuxBuilder (fold (\<lambda>ph s'. Pattern_store s' b ph) ps s ! n) = SubServeMuxBuilder (s ! n)"
  "Middlewares (fold (\<lambda>ph s'. Pattern_store s' b ph) ps s ! n) = Middlewares (s ! n)"
  by (induction ps arbitrary: s) simp_all

lemma Patterns_Pattern_store_other [simp]:
  "n \<noteq> b \<Longrightarrow> Patterns (Pattern_store s b ph ! n) = Patterns (s ! n)"
  by (simp add: Pattern_store_eq nth_list_update_total)

lemma Patterns_fold_Pattern_store_other [simp]:
  "n \<noteq> b \<Longrightarrow> Patterns (fold (\<lambda>ph s'. Pattern_store s' b ph) ps s ! n) = Patterns (s ! n)"
  by (induction ps arbitrary: s) simp_all

lemma Pattern_shape:
  "\<exists>P. Pattern s b ps =
     (let s5 = fold (\<lambda>ph s'. Pattern_store s' b ph) ps (set_PatternPrefix s b P)
      in s5[b := (s5 ! b)\<lparr>SubServeMuxBuilder := SubServeMuxBuilder (s5 ! b) @ [b]\<rparr>])"
proof -
  obtain p where p: "Pattern_scan (set_PatternPrefix s b (PatternPrefix (set_PatternPrefix s b [] ! Root (s ! b)))) b
      = set_PatternPrefix s b p"
    using Pattern_scan_frame by blast
  show ?thesis
    by (rule exI [of _ "PatternPrefix (set_PatternPrefix s b p ! b) @ PatternPrefix (s ! b)"])
       (simp add: Pattern_def Let_def p)
qed

lemma length_Pattern [simp]: "length (Pattern s b ps) = length s"
  using Pattern_shape [of s b ps] by (auto simp: Let_def)

lemma Root_Pattern [simp]: "Root (Pattern s b ps ! n) = Root (s ! n)"
  using Pattern_shape [of s b ps] by (auto simp: Let_def nth_list_update_total)

lemma Parent_Pattern [simp]: "Parent (Pattern s b ps ! n) = Parent (s ! n)"
  using Pattern_shape [of s b ps] by (auto simp: Let_def nth_list_update_total)

lemma Middlewares_Pattern [simp]: "Middlewares (Pattern s b ps ! n) = Middlewares (s ! n)"
  using Pattern_shape [of s b ps] by (auto simp: Let_def nth_list_update_total)

lemma Sub_Pattern:
  "SubServeMuxBuilder (Pattern s b ps ! n) =
     (if n = b \<and> b < length s then SubServeMuxBuilder (s ! b) @ [b] else SubServeMuxBuilder (s ! n))"
  using Pattern_shape [of s b ps] by (auto simp: Let_def nth_list_update_total)

lemma PatternPrefix_Pattern_other:
  "n \<noteq> b \<Longrightarrow> PatternPrefix (Pattern s b ps ! n) = PatternPrefix (s ! n)"
  using Pattern_shape [of s b ps]
  by (auto simp: Let_def nth_list_update_total nth_set_PatternPrefix_other)

lemma Patterns_Pattern_other:
  "n \<noteq> b \<Longrightarrow> Patterns (Pattern s b ps ! n) = Patterns (s ! n)"
  using Pattern_shape [of s b ps]
  by (auto simp: Let_def nth_list_update_total)

lemma Pattern_twice_root_child:
  assumes "b < length s" and "Parent (s ! b) = Root (s ! b)" and "Root (s ! b) \<noteq> b"
  shows "PatternPrefix (Pattern (Pattern s b ps) b qs ! b) =
           PatternPrefix (s ! Root (s ! b)) @ PatternPrefix (s ! Root (s ! b)) @ PatternPrefix (s ! b)"
proof -
  let ?s' = "Pattern s b ps"
  have 1: "PatternPrefix (?s' ! b) = PatternPrefix (s ! Root (s ! b)) @ PatternPrefix (s ! b)"
    using assms by (simp add: Pattern_prefix Pattern_base_root_child)
  have "Pattern_base ?s' b = PatternPrefix (?s' ! Root (?s' ! b))"
    using assms by (intro Pattern_base_root_child) simp_all
  also have "\<dots> = PatternPrefix (s ! Root (s ! b))"
    using assms by (simp add: PatternPrefix_Pattern_other)
  finally have 2: "Pattern_base ?s' b = PatternPrefix (s ! Root (s ! b))" .
  have "PatternPrefix (Pattern ?s' b qs ! b) = Pattern_base ?s' b @ PatternPrefix (?s' ! b)"
    using assms by (intro Pattern_prefix) simp
  with 1 2 show ?thesis by simp
qed

lemmas eval_defs = NewServeMuxBuilder_def Prefix_def Subrouter_def Pattern_def Pattern_scan_def
  Pattern_store_def set_PatternPrefix_def leading_slash_def splitPattern_def Use_def Let_def
  tree_v1_def two_level_tree_def tree_v1_v2_def tree_v1_v2_foobar_def tree_main_order_def
  scenario_root_def scenario_tree_def colliding_first_def colliding_tree_def

lemma update_last: "length xs = n \<Longrightarrow> (xs @ [x])[n := y] = xs @ [y]"
  by auto

lemma Subrouter_eq:
  assumes "b < length s"
  shows "Subrouter s b =
           (s[b := (s ! b)\<lparr>SubServeMuxBuilder := SubServeMuxBuilder (s ! b) @ [length s]\<rparr>]
            @ [\<lparr>Patterns = [], PatternPrefix = [], Middlewares = Middlewares (s ! b),
                 Root = Root (s ! b), Parent = b, SubServeMuxBuilder = [],
                 executedBuild = False, registeredPatterns = []\<rparr>],
            length s)"
proof (cases "b = Root (s ! b)")
  case True
  then have "Root (s ! b) < length s" using assms by simp
  with True assms show ?thesis
    by (simp add: Subrouter_def NewServeMuxBuilder_def Let_def nth_append update_last
        list_update_append1)
next
  case False
  with assms show ?thesis
    by (simp add: Subrouter_def NewServeMuxBuilder_def Let_def nth_append update_last
        list_update_append1)
qed

lemma Subrouter_ignores_PatternPrefix:
  assumes "b < length s"
  shows "Subrouter (set_PatternPrefix s b p) b
           = (set_PatternPrefix (fst (Subrouter s b)) b p, snd (Subrouter s b))"
proof -
  have swap: "(s ! b)\<lparr>PatternPrefix := p, SubServeMuxBuilder := x\<rparr>
          = (s ! b)\<lparr>SubServeMuxBuilder := x, PatternPrefix := p\<rparr>" for x
    by (cases "s ! b") simp
  from assms show ?thesis
    by (simp add: Subrouter_eq set_PatternPrefix_def nth_append list_update_append1)
       (simp only: swap)
qed

lemma Pattern_single:
  assumes "b < length s"
  shows "Patterns (Pattern s b [(pattern, h)] ! b) =
           AList.update
             (fst (splitPattern pattern)
                @ removeDoubleSlash (PatternPrefix (Pattern s b [(pattern, h)] ! b) @ snd (splitPattern pattern)))
             h (Patterns (s ! b))"
proof -
  obtain P where P: "Pattern s b [(pattern, h)] =
     (let s5 = fold (\<lambda>ph s'. Pattern_store s' b ph) [(pattern, h)] (set_PatternPrefix s b P)
      in s5[b := (s5 ! b)\<lparr>SubServeMuxBuilder := SubServeMuxBuilder (s5 ! b) @ [b]\<rparr>])"
    using Pattern_shape by blast
  have "PatternPrefix (Pattern s b [(pattern, h)] ! b) = P"
    using assms by (simp add: P Let_def nth_list_update_total nth_set_PatternPrefix_same)
  moreover have "Patterns (Pattern s b [(pattern, h)] ! b) =
      AList.update (fst (splitPattern pattern) @ removeDoubleSlash (P @ snd (splitPattern pattern)))
        h (Patterns (s ! b))"
    using assms
    by (simp add: P Let_def nth_list_update_total Pattern_store_eq nth_set_PatternPrefix_same)
  ultimately show ?thesis by simp
qed

lemma Pattern_key_no_double_slash:
  assumes "b < length s"
  shows "\<exists>path. no_double_slash path \<and>
           map_of (Patterns (Pattern s b [(pattern, h)] ! b)) (fst (splitPattern pattern) @ path) = Some h"
  using assms
  by (intro exI [of _ "removeDoubleSlash (PatternPrefix (Pattern s b [(pattern, h)] ! b) @ snd (splitPattern pattern))"])
     (simp add: Pattern_single update_conv' no_double_slash_removeDoubleSlash)

lemma length_Use [simp]: "length (Use s b mw) = length s"
  by (simp add: Use_def)

lemma Subrouter_snapshot:
  assumes "b < length s"
  shows "Middlewares (fst (Subrouter s b) ! snd (Subrouter s b)) = Middlewares (s ! b)"
    and "a \<noteq> snd (Subrouter s b) \<Longrightarrow>
           Middlewares (Use (fst (Subrouter s b)) a mw ! snd (Subrouter s b)) = Middlewares (s ! b)"
    and "Middlewares (fst (Subrouter (Use s b mw) b) ! snd (Subrouter (Use s b mw) b))
           = Middlewares (s ! b) @ mw"
  using assms
  by (simp_all add: Subrouter_eq Use_def nth_append nth_list_update_total)

section \<open>The traversal of \<open>Build\<close>\<close>

lemma Build_patterns_wrapped:
  "Build_patterns handle mws ps rp mux =
     Build_patterns handle [] (map (\<lambda>(pattern, handler). (pattern, newHandler mws handler)) ps) rp mux"
  by (induction ps arbitrary: rp mux) (auto simp: newHandler_Nil split: sum.splits)

lemma Build_patterns_append:
  "Build_patterns handle mws (xs @ ys) rp mux =
     (case Build_patterns handle mws xs rp mux of
        (rp', Inl e) \<Rightarrow> (rp', Inl e)
      | (rp', Inr mux') \<Rightarrow> Build_patterns handle mws ys rp' mux')"
  by (induction xs arbitrary: rp mux) (auto split: sum.splits)

lemma children_allocatedD:
  "children_allocated s \<Longrightarrow> n < length s \<Longrightarrow> c \<in> set (SubServeMuxBuilder (s ! n)) \<Longrightarrow> c < length s"
  by (auto simp: children_allocated_def list_all_iff)

lemma Build_loop_visits:
  "children_allocated s \<Longrightarrow> \<forall>c \<in> set queue. c < length s \<Longrightarrow>
         Build_loop handle s queue visited rp mux = (visited', rp', res) \<Longrightarrow>
         \<exists>new. visited' = visited @ new \<and> distinct new \<and> set new \<inter> set visited = {}
            \<and> (\<forall>n \<in> set new. n < length s)
            \<and> (queue \<noteq> [] \<and> hd queue \<notin> set visited \<longrightarrow> new \<noteq> [] \<and> hd new = hd queue)
            \<and> (rp', res) = Build_patterns handle [] (registrations s new) rp mux"
proof (induction handle s queue visited rp mux arbitrary: visited' rp' res rule: Build_loop.induct)
  case (1 handle s visited rp mux)
  then show ?case by (simp add: registrations_def)
next
  case (2 handle s current queue visited rp mux)
  show ?case
  proof (cases "current \<in> set visited")
    case True
    with 2 obtain new where "visited' = visited @ new" "distinct new" "set new \<inter> set visited = {}"
      "\<forall>n \<in> set new. n < length s"
      "(rp', res) = Build_patterns handle [] (registrations s new) rp mux"
      by fastforce
    with True show ?thesis by auto
  next
    case False
    from "2.prems" have cur: "current < length s" and q: "\<forall>c \<in> set queue. c < length s"
      and ca: "children_allocated s"
      by simp_all
    obtain rp1 r1 where bp: "Build_patterns handle (Middlewares (s ! current)) (Patterns (s ! current)) rp mux = (rp1, r1)"
      by (cases "Build_patterns handle (Middlewares (s ! current)) (Patterns (s ! current)) rp mux")
    have bp': "Build_patterns handle [] (node_registrations s current) rp mux = (rp1, r1)"
      using bp Build_patterns_wrapped [of handle "Middlewares (s ! current)"]
      by (simp add: node_registrations_def)
    show ?thesis
    proof (cases r1)
      case (Inl e)
      with False cur bp "2.prems" have "visited' = visited @ [current]" "rp' = rp1" "res = Inl e"
        by simp_all
      with False cur bp' Inl show ?thesis
        by (intro exI [of _ "[current]"]) (simp add: registrations_def)
    next
      case (Inr mux1)
      have alloc: "\<forall>c \<in> set (queue @ SubServeMuxBuilder (s ! current)). c < length s"
        using q children_allocatedD [OF ca cur] by auto
      have run: "Build_loop handle s (queue @ SubServeMuxBuilder (s ! current)) (visited @ [current]) rp1 mux1
          = (visited', rp', res)"
        using False cur bp Inr "2.prems" by simp
      from "2.IH"(2) [OF False _ bp [symmetric] Inr ca alloc run] cur
      obtain new where new: "visited' = (visited @ [current]) @ new" "distinct new"
        "set new \<inter> set (visited @ [current]) = {}" "\<forall>n \<in> set new. n < length s"
        "(rp', res) = Build_patterns handle [] (registrations s new) rp1 mux1"
        by auto
      have "(rp', res) = Build_patterns handle [] (registrations s (current # new)) rp mux"
        using new(5) bp' Inr by (simp add: registrations_def Build_patterns_append)
      with new False cur show ?thesis
        by (intro exI [of _ "current # new"]) auto
    qed
  qed
qed

lemma Build_loop_same_fields:
  assumes "length s' = length s"
    and "\<forall>n<length s. Middlewares (s' ! n) = Middlewares (s ! n) \<and> Patterns (s' ! n) = Patterns (s ! n)
           \<and> SubServeMuxBuilder (s' ! n) = SubServeMuxBuilder (s ! n)"
  shows "Build_loop handle s' queue visited rp mux = Build_loop handle s queue visited rp mux"
  using assms
proof (induction handle s queue visited rp mux rule: Build_loop.induct)
  case (1 handle s visited rp mux)
  then show ?case by simp
next
  case (2 handle s current queue visited rp mux)
  show ?case
  proof (cases "current \<in> set visited \<or> length s \<le> current")
    case True
    with 2 show ?thesis by auto
  next
    case False
    then have cur: "current < length s" by simp
    with "2.prems" have same: "Middlewares (s' ! current) = Middlewares (s ! current)"
      "Patterns (s' ! current) = Patterns (s ! current)"
      "SubServeMuxBuilder (s' ! current) = SubServeMuxBuilder (s ! current)"
      by simp_all
    obtain d r where d: "Build_patterns handle (Middlewares (s ! current)) (Patterns (s ! current)) rp mux = (d, r)"
      by (cases "Build_patterns handle (Middlewares (s ! current)) (Patterns (s ! current)) rp mux")
    show ?thesis
    proof (cases r)
      case (Inl e)
      with False d same "2.prems" show ?thesis by simp
    next
      case (Inr mux')
      from False have nv: "current \<notin> set visited" and nl: "\<not> length s \<le> current"
        by simp_all
      from nv nl d same Inr "2.prems" "2.IH"(2) [OF nv nl d [symmetric] Inr] show ?thesis by simp
    qed
  qed
qed

declare Build_loop.simps [simp del]

lemma Build_unfold:
  assumes "Build_loop handle s [Root (s ! b)] [] (registeredPatterns (s ! Root (s ! b))) emptyMux
           = (visited, rp, res)"
  shows "Build handle emptyMux s b =
           (case res of
              Inl e \<Rightarrow> (s[Root (s ! b) := (s ! Root (s ! b))\<lparr>registeredPatterns := rp\<rparr>], Inl e)
            | Inr mux \<Rightarrow>
                (s[Root (s ! b) := (s ! Root (s ! b))\<lparr>registeredPatterns := rp, executedBuild := True\<rparr>],
                 Inr mux))"
  using assms by (simp add: Build_def Let_def)

lemma Build_result:
  assumes "Root (s ! b) < length s"
    and "Build_loop handle s [Root (s ! b)] [] (registeredPatterns (s ! Root (s ! b))) emptyMux
           = (visited, rp, res)"
  shows "snd (Build handle emptyMux s b) = res"
    and "registeredPatterns (fst (Build handle emptyMux s b) ! Root (s ! b)) = rp"
    and "length (fst (Build handle emptyMux s b)) = length s"
    and "Root (fst (Build handle emptyMux s b) ! n) = Root (s ! n)"
    and "Middlewares (fst (Build handle emptyMux s b) ! n) = Middlewares (s ! n)"
    and "Patterns (fst (Build handle emptyMux s b) ! n) = Patterns (s ! n)"
    and "SubServeMuxBuilder (fst (Build handle emptyMux s b) ! n) = SubServeMuxBuilder (s ! n)"
    and "res = Inr mux \<Longrightarrow> executedBuild (fst (Build handle emptyMux s b) ! Root (s ! b))"
  using assms(1) by (cases res; simp add: Build_unfold [OF assms(2)] nth_list_update_total)+

lemma Build_loop_root:
  assumes ca: "children_allocated s" and root: "Root (s ! b) < length s"
    and run: "Build_loop handle s [Root (s ! b)] [] (registeredPatterns (s ! Root (s ! b))) emptyMux
       = (visited, rp, res)"
  shows "distinct visited" and "hd visited = Root (s ! b)" and "\<forall>n \<in> set visited. n < length s"
    and "(rp, res) = Build_patterns handle [] (registrations s visited)
              (registeredPatterns (s ! Root (s ! b))) emptyMux"
proof -
  have q: "\<forall>c \<in> set [Root (s ! b)]. c < length s"
    using root by simp
  from Build_loop_visits [OF ca q run]
  obtain new where new: "visited = [] @ new" "distinct new" "\<forall>n \<in> set new. n < length s"
    "[Root (s ! b)] \<noteq> [] \<and> hd [Root (s ! b)] \<notin> set [] \<longrightarrow> new \<noteq> [] \<and> hd new = hd [Root (s ! b)]"
    "(rp, res) = Build_patterns handle [] (registrations s new)
              (registeredPatterns (s ! Root (s ! b))) emptyMux"
    by blast
  then show "distinct visited" "hd visited = Root (s ! b)" "\<forall>n \<in> set visited. n < length s"
    "(rp, res) = Build_patterns handle [] (registrations s visited)
              (registeredPatterns (s ! Root (s ! b))) emptyMux"
    by simp_all
qed

subsection \<open>Dispatchers that refuse a registered pattern\<close>

lemma first_duplicate_None:
  "first_duplicate seen ks = None \<longleftrightarrow> distinct ks \<and> set ks \<inter> set seen = {}"
  by (induction ks arbitrary: seen) auto


lemma Build_patterns_strict:
  "snd (Build_patterns strict_Handle [] regs rp m) =
     (case first_duplicate (map fst m) (map fst regs) of
        None \<Rightarrow> Inr (m @ regs)
      | Some p \<Rightarrow> Inl (HandlePanic p))"
proof (induction regs arbitrary: rp m)
  case Nil
  then show ?case by simp
next
  case (Cons ph regs)
  obtain pattern handler where ph: "ph = (pattern, handler)" by (cases ph)
  show ?case
    using Cons [of "rp @ [pattern]" "m @ [(pattern, handler)]"]
    by (simp add: ph strict_Handle_def newHandler_Nil split: option.splits)
qed



lemma Build_patterns_rp:
  "Build_patterns handle mws ps rp mux = (rp', Inr t) \<Longrightarrow> rp' = rp @ map fst ps"
proof (induction ps arbitrary: rp mux)
  case Nil
  then show ?case by simp
next
  case (Cons ph ps)
  obtain pattern handler where ph: "ph = (pattern, handler)" by (cases ph)
  show ?case
  proof (cases "handle mux pattern (newHandler mws handler)")
    case (Inl e)
    with Cons.prems show ?thesis by (simp add: ph)
  next
    case (Inr m1)
    with Cons.prems have "Build_patterns handle mws ps (rp @ [pattern]) m1 = (rp', Inr t)"
      by (simp add: ph)
    from Cons.IH [OF this] show ?thesis by (simp add: ph)
  qed
qed

lemma Build_strict_result:
  assumes ca: "children_allocated s" and root: "Root (s ! b) < length s"
    and run: "Build_loop strict_Handle s [Root (s ! b)] [] (registeredPatterns (s ! Root (s ! b))) []
       = (visited, rp, res)"
  shows "res = (case first_duplicate [] (map fst (registrations s visited)) of
        None \<Rightarrow> Inr (registrations s visited)
      | Some p \<Rightarrow> Inl (HandlePanic p))"
  using Build_loop_root(4) [OF ca root run, symmetric]
    Build_patterns_strict [of "registrations s visited" "registeredPatterns (s ! Root (s ! b))" "[]"]
  by (simp split: option.splits)

subsection \<open>Two traversals\<close>

lemma reorderedD:
  assumes "reordered s s'"
  shows "length s' = length s"
    and "n < length s \<Longrightarrow> mset (Patterns (s' ! n)) = mset (Patterns (s ! n))"
    and "n < length s \<Longrightarrow> Root (s' ! n) = Root (s ! n)"
    and "n < length s \<Longrightarrow> Middlewares (s' ! n) = Middlewares (s ! n)"
    and "n < length s \<Longrightarrow> SubServeMuxBuilder (s' ! n) = SubServeMuxBuilder (s ! n)"
    and "n < length s \<Longrightarrow> registeredPatterns (s' ! n) = registeredPatterns (s ! n)"
    and "n < length s \<Longrightarrow> executedBuild (s' ! n) = executedBuild (s ! n)"
proof -
  from assms have l: "length s = length s'"
    and *: "\<And>n. n < length s \<Longrightarrow> mset (Patterns (s' ! n)) = mset (Patterns (s ! n))
               \<and> s' ! n = (s ! n)\<lparr>Patterns := Patterns (s' ! n)\<rparr>"
    by (simp_all add: reordered_def list_all2_conv_all_nth)
  from l show "length s' = length s" by simp
  show "mset (Patterns (s' ! n)) = mset (Patterns (s ! n))" if "n < length s"
    using * [OF that] by simp
  have eq: "s' ! n = (s ! n)\<lparr>Patterns := Patterns (s' ! n)\<rparr>" if "n < length s"
    using * [OF that] by simp
  show "Root (s' ! n) = Root (s ! n)" if "n < length s"
    by (subst eq [OF that]) simp
  show "Middlewares (s' ! n) = Middlewares (s ! n)" if "n < length s"
    by (subst eq [OF that]) simp
  show "SubServeMuxBuilder (s' ! n) = SubServeMuxBuilder (s ! n)" if "n < length s"
    by (subst eq [OF that]) simp
  show "registeredPatterns (s' ! n) = registeredPatterns (s ! n)" if "n < length s"
    by (subst eq [OF that]) simp
  show "executedBuild (s' ! n) = executedBuild (s ! n)" if "n < length s"
    by (subst eq [OF that]) simp
qed

lemma children_allocated_same:
  assumes "children_allocated s" and "length s' = length s"
    and "\<And>n. n < length s \<Longrightarrow> SubServeMuxBuilder (s' ! n) = SubServeMuxBuilder (s ! n)"
  shows "children_allocated s'"
  using assms by (simp add: children_allocated_def list_all_length)

lemma mset_registrations:
  assumes "\<And>n. n < length s \<Longrightarrow> mset (Patterns (s' ! n)) = mset (Patterns (s ! n))"
    and "\<And>n. n < length s \<Longrightarrow> Middlewares (s' ! n) = Middlewares (s ! n)"
  shows "\<forall>n \<in> set v. n < length s \<Longrightarrow> mset (registrations s' v) = mset (registrations s v)"
proof (induction v)
  case Nil
  then show ?case by (simp add: registrations_def)
next
  case (Cons n v)
  then have n: "n < length s" by simp
  have "mset (node_registrations s' n) = mset (node_registrations s n)"
    unfolding node_registrations_def mset_map assms(1) [OF n] assms(2) [OF n] ..
  with Cons show ?case by (simp add: registrations_def)
qed

lemma registrations_append:
  "registrations s (v @ w) = registrations s v @ registrations s w"
  by (simp add: registrations_def)

lemma Build_loop_extends:
  "Build_loop handle s queue visited rp mux = (visited', rp', res) \<Longrightarrow> \<exists>new. visited' = visited @ new"
proof (induction handle s queue visited rp mux rule: Build_loop.induct)
  case (1 handle s visited rp mux)
  then show ?case by (simp add: Build_loop.simps)
next
  case (2 handle s current queue visited rp mux)
  show ?case
  proof (cases "current \<in> set visited")
    case True
    with 2 show ?thesis by (simp add: Build_loop.simps)
  next
    case nv: False
    show ?thesis
    proof (cases "length s \<le> current")
      case True
      with nv "2.prems" show ?thesis by (auto simp: Build_loop.simps)
    next
      case nl: False
      obtain d r where d: "Build_patterns handle (Middlewares (s ! current)) (Patterns (s ! current)) rp mux = (d, r)"
        by (cases "Build_patterns handle (Middlewares (s ! current)) (Patterns (s ! current)) rp mux")
      show ?thesis
      proof (cases r)
        case (Inl e)
        with nv nl d "2.prems" show ?thesis by (auto simp: Build_loop.simps)
      next
        case (Inr mux')
        with nv nl d "2.prems"
        have "Build_loop handle s (queue @ SubServeMuxBuilder (s ! current)) (visited @ [current]) d mux'
               = (visited', rp', res)"
          by (simp add: Build_loop.simps)
        from "2.IH"(2) [OF nv nl d [symmetric] Inr this] show ?thesis by auto
      qed
    qed
  qed
qed

lemma Build_loop_order:
  "length s2 = length s1 \<Longrightarrow>
   \<forall>n<length s1. SubServeMuxBuilder (s2 ! n) = SubServeMuxBuilder (s1 ! n) \<Longrightarrow>
   Build_loop h1 s1 queue visited rp1 m1 = (v1, rp1', Inr t1) \<Longrightarrow>
   Build_loop h2 s2 queue visited rp2 m2 = (v2, rp2', res2) \<Longrightarrow>
   (\<exists>rest. v1 = v2 @ rest) \<and> (\<forall>t2. res2 = Inr t2 \<longrightarrow> v2 = v1)"
proof (induction h1 s1 queue visited rp1 m1 arbitrary: rp2 m2 rule: Build_loop.induct)
  case (1 handle s visited rp mux)
  then show ?case by (simp add: Build_loop.simps)
next
  case (2 handle s current queue visited rp mux)
  note len = "2.prems"(1) and sub = "2.prems"(2) and run1 = "2.prems"(3) and run2 = "2.prems"(4)
  show ?case
  proof (cases "current \<in> set visited")
    case True
    from run1 run2 True "2.IH"(1) [OF True len sub, of rp2 m2] show ?thesis
      by (simp add: Build_loop.simps)
  next
    case nv: False
    show ?thesis
    proof (cases "length s \<le> current")
      case True
      with nv run1 show ?thesis by (simp add: Build_loop.simps)
    next
      case nl: False
      then have cur: "current < length s" by simp
      obtain d r where d: "Build_patterns handle (Middlewares (s ! current)) (Patterns (s ! current)) rp mux = (d, r)"
        by (cases "Build_patterns handle (Middlewares (s ! current)) (Patterns (s ! current)) rp mux")
      show ?thesis
      proof (cases r)
        case (Inl e)
        with nv nl d run1 show ?thesis by (simp add: Build_loop.simps)
      next
        case (Inr mux')
        with nv nl d run1
        have rec1: "Build_loop handle s (queue @ SubServeMuxBuilder (s ! current)) (visited @ [current]) d mux'
               = (v1, rp1', Inr t1)"
          by (simp add: Build_loop.simps)
        obtain d2 r2 where d2: "Build_patterns h2 (Middlewares (s2 ! current)) (Patterns (s2 ! current)) rp2 m2 = (d2, r2)"
          by (cases "Build_patterns h2 (Middlewares (s2 ! current)) (Patterns (s2 ! current)) rp2 m2")
        show ?thesis
        proof (cases r2)
          case (Inl e2)
          with nv nl len d2 run2 have "v2 = visited @ [current]" "res2 = Inl e2"
            by (simp_all add: Build_loop.simps)
          with Build_loop_extends [OF rec1] show ?thesis by auto
        next
          case r2: (Inr mux2)
          with nv nl len d2 run2 sub cur
          have rec2: "Build_loop h2 s2 (queue @ SubServeMuxBuilder (s ! current)) (visited @ [current]) d2 mux2
               = (v2, rp2', res2)"
            by (simp add: Build_loop.simps)
          from "2.IH"(2) [OF nv nl d [symmetric] Inr len sub rec1 rec2] show ?thesis .
        qed
      qed
    qed
  qed
qed

lemma Build_ignores_executedBuild:
  "snd (Build handle emptyMux (s[n := (s ! n)\<lparr>executedBuild := flag\<rparr>]) b) = snd (Build handle emptyMux s b)"
proof -
  let ?s' = "s[n := (s ! n)\<lparr>executedBuild := flag\<rparr>]"
  have f: "Root (?s' ! k) = Root (s ! k)" "registeredPatterns (?s' ! k) = registeredPatterns (s ! k)"
    "Middlewares (?s' ! k) = Middlewares (s ! k)" "Patterns (?s' ! k) = Patterns (s ! k)"
    "SubServeMuxBuilder (?s' ! k) = SubServeMuxBuilder (s ! k)" for k
    by (simp_all add: nth_list_update_total)
  have same: "Build_loop handle ?s' queue vis rp mux = Build_loop handle s queue vis rp mux"
    for queue vis rp mux
    by (rule Build_loop_same_fields) (simp_all add: f)
  show ?thesis
    by (simp add: Build_def Let_def f same split: prod.splits sum.splits)
qed

section \<open>\<open>XXSMux\<close>: the traversal of \<open>Build\<close>\<close>

lemma Build_x_patterns_wrapped:
  "Build_x_patterns handle mws ps mux =
     Build_x_patterns handle [] (map (\<lambda>(pattern, handler). (pattern, NewHandler mws handler)) ps) mux"
  by (induction ps arbitrary: mux) (auto split: sum.splits)

lemma Build_x_patterns_append:
  "Build_x_patterns handle mws (xs @ ys) mux =
     (case Build_x_patterns handle mws xs mux of
        Inl e \<Rightarrow> Inl e
      | Inr mux' \<Rightarrow> Build_x_patterns handle mws ys mux')"
  by (induction xs arbitrary: mux) (auto split: sum.splits)

lemma children_allocated_xD:
  "children_allocated_x s \<Longrightarrow> n < length s \<Longrightarrow> c \<in> set (subXXSMux (s ! n)) \<Longrightarrow> c < length s"
  by (auto simp: children_allocated_x_def list_all_iff)

lemma Build_x_loop_visits:
  "children_allocated_x s \<Longrightarrow> \<forall>c \<in> set queue. c < length s \<Longrightarrow>
         Build_x_loop handle s queue visited mux = (visited', res) \<Longrightarrow>
         \<exists>new. visited' = visited @ new \<and> distinct new \<and> set new \<inter> set visited = {}
            \<and> (\<forall>n \<in> set new. n < length s)
            \<and> (queue \<noteq> [] \<and> hd queue \<notin> set visited \<longrightarrow> new \<noteq> [] \<and> hd new = hd queue)
            \<and> res = Build_x_patterns handle [] (registrations_x s new) mux"
proof (induction handle s queue visited mux arbitrary: visited' res rule: Build_x_loop.induct)
  case (1 handle s visited mux)
  then show ?case by (simp add: registrations_x_def)
next
  case (2 handle s current queue visited mux)
  show ?case
  proof (cases "current \<in> set visited")
    case True
    with 2 obtain new where "visited' = visited @ new" "distinct new" "set new \<inter> set visited = {}"
      "\<forall>n \<in> set new. n < length s"
      "res = Build_x_patterns handle [] (registrations_x s new) mux"
      by fastforce
    with True show ?thesis by auto
  next
    case False
    from "2.prems" have cur: "current < length s" and q: "\<forall>c \<in> set queue. c < length s"
      and ca: "children_allocated_x s"
      by simp_all
    let ?r1 = "Build_x_patterns handle (middlewares_x (s ! current)) (patterns_x (s ! current)) mux"
    have bp': "Build_x_patterns handle [] (node_registrations_x s current) mux = ?r1"
      using Build_x_patterns_wrapped [of handle "middlewares_x (s ! current)"]
      by (simp add: node_registrations_x_def)
    show ?thesis
    proof (cases ?r1)
      case (Inl e)
      with False cur "2.prems" have "visited' = visited @ [current]" "res = Inl e"
        by simp_all
      with False cur bp' Inl show ?thesis
        by (intro exI [of _ "[current]"]) (simp add: registrations_x_def)
    next
      case (Inr mux1)
      have alloc: "\<forall>c \<in> set (queue @ subXXSMux (s ! current)). c < length s"
        using q children_allocated_xD [OF ca cur] by auto
      have run: "Build_x_loop handle s (queue @ subXXSMux (s ! current)) (visited @ [current]) mux1
          = (visited', res)"
        using False cur Inr "2.prems" by simp
      from "2.IH"(2) [OF False _ Inr ca alloc run] cur
      obtain new where new: "visited' = (visited @ [current]) @ new" "distinct new"
        "set new \<inter> set (visited @ [current]) = {}" "\<forall>n \<in> set new. n < length s"
        "res = Build_x_patterns handle [] (registrations_x s new) mux1"
        by auto
      have "res = Build_x_patterns handle [] (registrations_x s (current # new)) mux"
        using new(5) bp' Inr by (simp add: registrations_x_def Build_x_patterns_append)
      with new False cur show ?thesis
        by (intro exI [of _ "current # new"]) auto
    qed
  qed
qed

declare Build_x_loop.simps [simp del]

lemma Build_x_visits:
  assumes ca: "children_allocated_x s" and mux: "mux < length s"
    and run: "Build_x handle defaultServeMux s mux = (visited, res)"
  shows "distinct visited" and "hd visited = mux" and "\<forall>n \<in> set visited. n < length s"
    and "res = Build_x_patterns handle [] (registrations_x s visited) defaultServeMux"
proof -
  have q: "\<forall>c \<in> set [mux]. c < length s"
    using mux by simp
  from run have run': "Build_x_loop handle s [mux] [] defaultServeMux = (visited, res)"
    by (simp add: Build_x_def)
  from Build_x_loop_visits [OF ca q run']
  obtain new where new: "visited = [] @ new" "distinct new" "\<forall>n \<in> set new. n < length s"
    "[mux] \<noteq> [] \<and> hd [mux] \<notin> set [] \<longrightarrow> new \<noteq> [] \<and> hd new = hd [mux]"
    "res = Build_x_patterns handle [] (registrations_x s new) defaultServeMux"
    by blast
  then show "distinct visited" "hd visited = mux" "\<forall>n \<in> set visited. n < length s"
    "res = Build_x_patterns handle [] (registrations_x s visited) defaultServeMux"
    by simp_all
qed

section \<open>\<open>XXSMux\<close>: \<open>Pattern\<close> and the stored prefix\<close>

lemma length_set_patternPrefix_x [simp]: "length (set_patternPrefix_x s mux p) = length s"
  by (simp add: set_patternPrefix_x_def)

lemma set_patternPrefix_x_twice [simp]:
  "set_patternPrefix_x (set_patternPrefix_x s mux p) mux q = set_patternPrefix_x s mux q"
  by (cases "mux < length s") (simp_all add: set_patternPrefix_x_def list_update_beyond)

lemma nth_set_patternPrefix_x_same:
  "mux < length s \<Longrightarrow> set_patternPrefix_x s mux p ! mux = (s ! mux)\<lparr>patternPrefix_x := p\<rparr>"
  by (simp add: set_patternPrefix_x_def)

lemma fields_set_patternPrefix_x [simp]:
  "root_x (set_patternPrefix_x s mux p ! n) = root_x (s ! n)"
  "parent_x (set_patternPrefix_x s mux p ! n) = parent_x (s ! n)"
  "subXXSMux (set_patternPrefix_x s mux p ! n) = subXXSMux (s ! n)"
  by (simp_all add: set_patternPrefix_x_def nth_list_update_total)

lemma Pattern_x_inner_frame:
  "\<exists>p. Pattern_x_inner (set_patternPrefix_x s mux q) mux subMux = set_patternPrefix_x s mux p
       \<and> (q \<noteq> [] \<longrightarrow> p \<noteq> [])"
proof -
  have "\<exists>p. fold (\<lambda>subSubMux s2. set_patternPrefix_x s2 mux (patternPrefix_x (s2 ! subSubMux) @ [slash]))
          xs (set_patternPrefix_x s mux q) = set_patternPrefix_x s mux p \<and> (q \<noteq> [] \<longrightarrow> p \<noteq> [])" for xs
  proof (induction xs arbitrary: q)
    case Nil
    then show ?case by auto
  next
    case (Cons x xs)
    from Cons [of "patternPrefix_x (set_patternPrefix_x s mux q ! x) @ [slash]"]
    show ?case by auto
  qed
  then show ?thesis by (simp add: Pattern_x_inner_def)
qed

lemma Pattern_x_scan_frame:
  "\<exists>p. Pattern_x_scan (set_patternPrefix_x s mux q) mux parent = set_patternPrefix_x s mux p
       \<and> (q \<noteq> [] \<longrightarrow> p \<noteq> [])"
proof -
  have "\<exists>p. fold (\<lambda>subMux s1.
             if parent_x (s1 ! mux) = root_x (s1 ! mux) then
               (if subMux = mux then Pattern_x_inner s1 mux subMux else s1)
             else Pattern_x_inner s1 mux subMux)
          xs (set_patternPrefix_x s mux q) = set_patternPrefix_x s mux p \<and> (q \<noteq> [] \<longrightarrow> p \<noteq> [])" for xs
  proof (induction xs arbitrary: q)
    case Nil
    then show ?case by auto
  next
    case (Cons x xs)
    obtain p where p: "Pattern_x_inner (set_patternPrefix_x s mux q) mux x = set_patternPrefix_x s mux p"
      "q \<noteq> [] \<longrightarrow> p \<noteq> []"
      using Pattern_x_inner_frame by blast
    from Cons [of p] Cons [of q] p show ?case
      by (cases "parent_x (s ! mux) = root_x (s ! mux)"; cases "x = mux") auto
  qed
  then show ?thesis by (simp add: Pattern_x_scan_def)
qed

lemma Pattern_x_store_frame:
  "Pattern_x_store s mux ps = Some s' \<Longrightarrow>
     length s' = length s \<and> patternPrefix_x (s' ! n) = patternPrefix_x (s ! n)"
proof (induction s mux ps rule: Pattern_x_store.induct)
  case (1 s mux)
  then show ?case by simp
next
  case (2 s mux pattern handler ps)
  then show ?case
    by (auto split: list.splits simp: nth_list_update_total)
qed

lemma Pattern_x_prefix:
  assumes "Pattern_x s mux ps = Some s'" and "mux < length s"
  shows "\<exists>base. base \<noteq> [] \<and> patternPrefix_x (s' ! mux) = base @ patternPrefix_x (s ! mux)"
proof -
  let ?s1 = "set_patternPrefix_x s mux []"
  from assms obtain root where root: "root_x (s ! mux) = Some root"
    by (auto simp: Pattern_x_def Let_def split: option.splits)
  let ?q = "patternPrefix_x (?s1 ! root) @ [slash]"
  from assms root obtain parent where parent: "parent_x (s ! mux) = Some parent"
    by (auto simp: Pattern_x_def Let_def split: option.splits)
  obtain p where p: "Pattern_x_scan (set_patternPrefix_x s mux ?q) mux parent = set_patternPrefix_x s mux p"
    "p \<noteq> []"
    using Pattern_x_scan_frame [of s mux ?q parent] by auto
  from assms root parent p obtain s5 where s5:
    "Pattern_x_store (set_patternPrefix_x s mux (p @ patternPrefix_x (s ! mux))) mux ps = Some s5"
    "s' = s5[mux := (s5 ! mux)\<lparr>subXXSMux := subXXSMux (s5 ! mux) @ [mux]\<rparr>]"
    by (auto simp: Pattern_x_def Let_def nth_set_patternPrefix_x_same split: option.splits)
  from Pattern_x_store_frame [OF s5(1), of mux] assms(2)
  have "patternPrefix_x (s' ! mux) = p @ patternPrefix_x (s ! mux)"
    by (simp add: s5(2) nth_set_patternPrefix_x_same)
  with p(2) show ?thesis by blast
qed

section \<open>The example trees, evaluated\<close>

lemmas x_eval = x_root_def x_child_def main_router_def NewXXSMux_def Use_x_def Subrouter_x_def
  Prefix_x_def wrap_def Let_def

lemmas Build_eval = Build_def Build_loop.simps accept_Handle_def strict_Handle_def newHandler_Nil newHandler_Cons
  wrap_def children_allocated_def

lemma scenario_tree_eval:
  "scenario_tree =
     [\<lparr>Patterns = [(''GET /v1/ping'', [''ping''])], PatternPrefix = ''/v1'',
       Middlewares = [wrap ''Auth''], Root = 0, Parent = 0, SubServeMuxBuilder = [0, 1],
       executedBuild = False, registeredPatterns = []\<rparr>,
      \<lparr>Patterns = [(''GET /v1/admin/secret'', [''secret''])], PatternPrefix = ''/v1/admin'',
       Middlewares = [wrap ''Auth'', wrap ''AdminOnly''], Root = 0, Parent = 0,
       SubServeMuxBuilder = [1], executedBuild = False, registeredPatterns = []\<rparr>]"
  by (simp add: eval_defs wrap_def)


lemma scenario_Build:
  "Build accept_Handle [] scenario_tree 0 =
     (scenario_tree[0 := (scenario_tree ! 0)
        \<lparr>registeredPatterns := [''GET /v1/ping'', ''GET /v1/admin/secret''], executedBuild := True\<rparr>],
      Inr [(''GET /v1/ping'', [''Auth'', ''ping'']),
           (''GET /v1/admin/secret'', [''Auth'', ''AdminOnly'', ''secret''])])"
  by (simp add: scenario_tree_eval Build_eval)

lemma scenario_Build_loop:
  "Build_loop accept_Handle scenario_tree [0] [] [] []
     = ([0, 1], [''GET /v1/ping'', ''GET /v1/admin/secret''],
        Inr [(''GET /v1/ping'', [''Auth'', ''ping'']),
             (''GET /v1/admin/secret'', [''Auth'', ''AdminOnly'', ''secret''])])"
  by (simp add: scenario_tree_eval Build_eval)





lemma two_patterns_eval:
  "two_patterns =
     [\<lparr>Patterns = [(''GET /v1/a'', [''a'']), (''GET /v1/b'', [''b''])], PatternPrefix = ''/v1'',
       Middlewares = [], Root = 0, Parent = 0, SubServeMuxBuilder = [0],
       executedBuild = False, registeredPatterns = []\<rparr>]"
  by (simp add: two_patterns_def eval_defs)

lemma two_patterns_Build_loop:
  "Build_loop strict_Handle two_patterns [0] [] [] []
     = ([0], [''GET /v1/a'', ''GET /v1/b''],
        Inr [(''GET /v1/a'', [''a'']), (''GET /v1/b'', [''b''])])"
  by (simp add: two_patterns_eval Build_eval)

lemma two_patterns_built_eval:
  "two_patterns_built =
     [\<lparr>Patterns = [(''GET /v1/a'', [''a'']), (''GET /v1/b'', [''b''])], PatternPrefix = ''/v1'',
       Middlewares = [], Root = 0, Parent = 0, SubServeMuxBuilder = [0],
       executedBuild = True, registeredPatterns = [''GET /v1/a'', ''GET /v1/b'']\<rparr>]"
  by (simp add: two_patterns_built_def two_patterns_eval Build_eval)

lemma two_patterns_other_order_eval:
  "two_patterns_other_order =
     [\<lparr>Patterns = [(''GET /v1/b'', [''b'']), (''GET /v1/a'', [''a''])], PatternPrefix = ''/v1'',
       Middlewares = [], Root = 0, Parent = 0, SubServeMuxBuilder = [0],
       executedBuild = True, registeredPatterns = [''GET /v1/a'', ''GET /v1/b'']\<rparr>]"
  by (simp add: two_patterns_other_order_def two_patterns_built_eval)

lemma two_patterns_other_order_Build_loop:
  "Build_loop strict_Handle two_patterns_other_order [0] [] [''GET /v1/a'', ''GET /v1/b''] []
     = ([0], [''GET /v1/a'', ''GET /v1/b'', ''GET /v1/b'', ''GET /v1/a''],
        Inr [(''GET /v1/b'', [''b'']), (''GET /v1/a'', [''a''])])"
  by (simp add: two_patterns_other_order_eval Build_eval)

lemma scenario_Build_twice:
  "snd (Build accept_Handle [] (fst (Build accept_Handle [] scenario_tree 0)) 0)
     = Inr [(''GET /v1/ping'', [''Auth'', ''ping'']),
            (''GET /v1/admin/secret'', [''Auth'', ''AdminOnly'', ''secret''])]"
  "registeredPatterns (fst (Build accept_Handle [] (fst (Build accept_Handle [] scenario_tree 0)) 0) ! 0)
     = [''GET /v1/ping'', ''GET /v1/admin/secret'', ''GET /v1/ping'', ''GET /v1/admin/secret'']"
  "executedBuild (fst (Build accept_Handle [] scenario_tree 0) ! 0)"
  "registeredPatterns (fst (Build accept_Handle [] scenario_tree 0) ! 0)
     = [''GET /v1/ping'', ''GET /v1/admin/secret'']"
  by (simp_all add: scenario_Build) (simp_all add: scenario_tree_eval Build_eval)

lemma spec_effective_prefix_example:
  "spec_effective_prefix [''v1'', ''v2/{id}'', ''foobar''] = ''/v1/v2/{id}/foobar''"
  by (simp add: spec_effective_prefix_def)

lemma tree_main_order_eval:
  "Patterns (Pattern tree_main_order 2 [(''GET /x'', [''x''])] ! 2)
     = [(''GET /v1/v2/{id}/foobar/x'', [''x''])]"
  by (simp add: eval_defs)

lemma Pattern_collapses_slashes_example:
  "Patterns (Pattern (Prefix (fst (NewServeMuxBuilder [])) 0 ''/v1//'') 0 [(''GET //test'', [''test''])] ! 0)
     = [(''GET /v1/test'', [''test''])]"
  by (simp add: eval_defs)

lemmas x_eval' = x_eval set_patternPrefix_x_def Pattern_x_def Pattern_x_scan_def Pattern_x_inner_def

lemma x_scenario_eval:
  "x_scenario =
     [\<lparr>patterns_x = [(''/v1/ping'', [''ping''])], patternPrefix_x = ''/v1'',
       middlewares_x = [wrap ''A''], root_x = Some 0, parent_x = Some 0, subXXSMux = [0, 1]\<rparr>,
      \<lparr>patterns_x = [(''/v1/admin/secret'', [''secret''])], patternPrefix_x = ''/v1/admin'',
       middlewares_x = [wrap ''A'', wrap ''B''], root_x = Some 0, parent_x = Some 0,
       subXXSMux = [1]\<rparr>]"
  by (simp add: x_scenario_def x_eval' del: wrap_def)

lemma x_scenario_Build:
  "Build_x accept_Handle [] x_scenario 0
     = ([0, 1], Inr [(''/v1/ping'', [''A'', ''ping'']), (''/v1/admin/secret'', [''B'', ''A'', ''secret''])])"
  by (simp add: x_scenario_eval Build_x_def Build_x_loop.simps accept_Handle_def wrap_def)

lemma x_v1_Pattern:
  "length x_v1 = 1"
  "patternPrefix_x (x_v1 ! 0) = ''v1''"
  "map_option (\<lambda>s. patternPrefix_x (s ! 0)) (Pattern_x x_v1 0 [(''GET /ping'', [''ping''])]) = Some ''/v1''"
  by (simp_all add: x_v1_def x_eval')

section \<open>The claims\<close>

text \<open>
  C1.  The prefix that \<open>Pattern\<close> puts in front of a path is not the join of the
  fragments of the ancestor chain.  In the tree of the specification's example (root
  \<open>v1\<close>, child \<open>v2/{id}\<close>, grandchild \<open>foobar\<close>), built by \<open>Prefix\<close> and
  \<open>Subrouter\<close> calls only, the first \<open>Pattern\<close> call on the grandchild registers
  \<open>GET /x\<close> under \<open>/v1/foobar/x\<close>: the fragment of the child is lost, because the
  scan only finds prefixes of nodes that have called \<open>Pattern\<close> or are children of
  the parent's children.  (When every node calls \<open>Pattern\<close> before its subrouter is
  created, as \<open>main.go\<close> does, the same tree gives \<open>/v1/v2/{id}/foobar/x\<close>: lemma
  \<open>tree_main_order_eval\<close>.)  \<open>XXSMux.Pattern\<close> loses the fragment on the same tree
  in the same way.
\<close>

theorem grandchild_loses_parent_fragment:
  "snd (NewServeMuxBuilder ([] :: string list store)) = 0
   \<and> snd (Subrouter tree_v1 0) = 1
   \<and> snd (Subrouter tree_v1_v2 1) = 2
   \<and> map PatternPrefix tree_v1_v2_foobar = [''/v1'', ''/v2/{id}'', ''/foobar'']
   \<and> map Parent tree_v1_v2_foobar = [0, 0, 1]
   \<and> Patterns (Pattern tree_v1_v2_foobar 2 [(''GET /x'', [''x''])] ! 2)
        = [(''GET /v1/foobar/x'', [''x''])]
   \<and> map patternPrefix_x x_v1_v2_foobar = [''/v1'', ''v2/{id}'', ''foobar'']
   \<and> map parent_x x_v1_v2_foobar = [Some 0, Some 0, Some 1]
   \<and> map_option (\<lambda>s. patterns_x (s ! 2)) (Pattern_x x_v1_v2_foobar 2 [(''GET /x'', [''x''])])
        = Some [(''/v1/foobar/x'', [''x''])]"
  by (simp add: eval_defs x_v1_v2_foobar_def x_eval')



text \<open>
  C3.  The chain of \<open>main.go\<close>, \<open>NewHandler\<close>, wraps from the front of the list
  forward: on the sequence \<open>[m0, m1]\<close> and the handler \<open>h\<close> the request is served by
  \<open>m1\<close> first, then \<open>m0\<close>, then \<open>h\<close>, where the claim has \<open>m0\<close>, \<open>m1\<close>, \<open>h\<close>.
  (\<open>newHandler\<close> of \<open>muxify.go\<close> has the order of the claim for every sequence:
  lemma \<open>newHandler_announce\<close>.)
\<close>

theorem NewHandler_last_middleware_first:
  "NewHandler [announce ''m0'', announce ''m1''] (endpoint ''h'') [] = [''m1'', ''m0'', ''h'']"
  by (simp add: announce_def endpoint_def)

text \<open>
  C4, as amended.  \<open>Build\<close> does not read \<open>executedBuild\<close>: its result is the same
  whatever the flag of any node is.  The second \<open>Build\<close> runs on the store that the
  first call left, with the maps ranged in any order: on any \<open>s2\<close> that is this store
  up to \<open>reordered\<close>.  It traverses again from the root into a fresh mux: its result
  and the root's \<open>registeredPatterns\<close> are those of registering the patterns of the
  nodes it visits, after the keys that the first call recorded, although the flag is
  set when the first call returned.  When both calls return, they visit the same
  nodes, and \<open>registeredPatterns\<close> holds the keys of the first call followed by the
  keys of the second, which are the same registrations up to order.  With
  \<open>strict_Handle\<close> the second call returns whenever the first did, and its table has
  the same entries.
\<close>

theorem Build_twice:
  "(children_allocated s \<and> b < length s \<and> Root (s ! b) < length s \<and>
    reordered (fst (Build handle emptyMux s b)) s2 \<longrightarrow>
      (case Build_loop handle s [Root (s ! b)] [] (registeredPatterns (s ! Root (s ! b))) emptyMux of
         (visited1, rp1, res1) \<Rightarrow>
           (case Build_loop handle s2 [Root (s ! b)] [] rp1 emptyMux of
              (visited2, rp2, res2) \<Rightarrow>
                snd (Build handle emptyMux s b) = res1 \<and>
                registeredPatterns (s2 ! Root (s ! b)) = rp1 \<and>
                snd (Build handle emptyMux s2 b) = res2 \<and>
                registeredPatterns (fst (Build handle emptyMux s2 b) ! Root (s ! b)) = rp2 \<and>
                (rp2, res2) = Build_patterns handle [] (registrations s2 visited2) rp1 emptyMux \<and>
                distinct visited2 \<and> hd visited2 = Root (s ! b) \<and>
                (\<forall>t1. res1 = Inr t1 \<longrightarrow> executedBuild (s2 ! Root (s ! b))) \<and>
                (\<forall>t1 t2. res1 = Inr t1 \<and> res2 = Inr t2 \<longrightarrow>
                   visited2 = visited1 \<and>
                   rp1 = registeredPatterns (s ! Root (s ! b)) @ map fst (registrations s visited1) \<and>
                   rp2 = rp1 @ map fst (registrations s2 visited1) \<and>
                   mset (registrations s2 visited1) = mset (registrations s visited1))))) \<and>
   (children_allocated s \<and> b < length s \<and> Root (s ! b) < length s \<and>
    reordered (fst (Build strict_Handle [] s b)) s3 \<longrightarrow>
      (\<forall>t1. snd (Build strict_Handle [] s b) = Inr t1 \<longrightarrow>
         (\<exists>t2. snd (Build strict_Handle [] s3 b) = Inr t2 \<and> mset t2 = mset t1))) \<and>
   snd (Build handle emptyMux (s[n := (s ! n)\<lparr>executedBuild := flag\<rparr>]) b)
     = snd (Build handle emptyMux s b)"
proof (intro conjI impI; (elim conjE)?)
  show "snd (Build handle emptyMux (s[n := (s ! n)\<lparr>executedBuild := flag\<rparr>]) b)
     = snd (Build handle emptyMux s b)"
    by (rule Build_ignores_executedBuild)
next
  assume ca: "children_allocated s" and b: "b < length s" and root: "Root (s ! b) < length s"
    and re: "reordered (fst (Build handle emptyMux s b)) s2"
  let ?r = "Root (s ! b)"
  let ?rp0 = "registeredPatterns (s ! ?r)"
  let ?s1 = "fst (Build handle emptyMux s b)"
  obtain visited1 rp1 res1 where run1: "Build_loop handle s [?r] [] ?rp0 emptyMux = (visited1, rp1, res1)"
    using prod_cases3 by blast
  obtain visited2 rp2 res2 where run2: "Build_loop handle s2 [?r] [] rp1 emptyMux = (visited2, rp2, res2)"
    using prod_cases3 by blast
  note first = Build_result [OF root run1]
  note first_loop = Build_loop_root [OF ca root run1]
  note r = reorderedD [OF re, unfolded first(3)]
  have len2: "length s2 = length s"
    by (rule r(1))
  have sub2: "\<forall>n<length s. SubServeMuxBuilder (s2 ! n) = SubServeMuxBuilder (s ! n)"
    by (simp add: r(5) first(7))
  have root2: "Root (s2 ! b) = ?r"
    using b by (simp add: r(3) first(4))
  have rp_s2: "registeredPatterns (s2 ! ?r) = rp1"
    using root by (simp add: r(6) first(2))
  have ca2: "children_allocated s2"
    by (rule children_allocated_same [OF ca len2]) (simp add: sub2)
  have root2': "Root (s2 ! b) < length s2"
    using root by (simp add: root2 len2)
  have run2': "Build_loop handle s2 [Root (s2 ! b)] [] (registeredPatterns (s2 ! Root (s2 ! b))) emptyMux
      = (visited2, rp2, res2)"
    using run2 by (simp add: root2 rp_s2)
  note second = Build_result [OF root2' run2', unfolded root2]
  note second_loop = Build_loop_root [OF ca2 root2' run2', unfolded root2 rp_s2]
  have flag: "executedBuild (s2 ! ?r)" if "res1 = Inr t1" for t1
    using root first(8) [OF that] by (simp add: r(7))
  have both: "visited2 = visited1 \<and> rp1 = ?rp0 @ map fst (registrations s visited1) \<and>
      rp2 = rp1 @ map fst (registrations s2 visited1) \<and>
      mset (registrations s2 visited1) = mset (registrations s visited1)"
    if res: "res1 = Inr t1" "res2 = Inr t2" for t1 t2
  proof -
    from Build_loop_order [OF len2 sub2 run1 [unfolded res(1)] run2] res(2)
    have v: "visited2 = visited1" by simp
    from first_loop(4) res(1)
    have "Build_patterns handle [] (registrations s visited1) ?rp0 emptyMux = (rp1, Inr t1)"
      by simp
    then have rp1: "rp1 = ?rp0 @ map fst (registrations s visited1)"
      by (rule Build_patterns_rp)
    from second_loop(4) res(2) v
    have "Build_patterns handle [] (registrations s2 visited1) rp1 emptyMux = (rp2, Inr t2)"
      by simp
    then have rp2: "rp2 = rp1 @ map fst (registrations s2 visited1)"
      by (rule Build_patterns_rp)
    have "mset (registrations s2 visited1) = mset (registrations s visited1)"
      using first_loop(3)
      by (intro mset_registrations) (simp_all add: r(2) r(4) first(5) first(6))
    with v rp1 rp2 show ?thesis by simp
  qed
  show "case Build_loop handle s [?r] [] ?rp0 emptyMux of
         (visited1, rp1, res1) \<Rightarrow>
           (case Build_loop handle s2 [?r] [] rp1 emptyMux of
              (visited2, rp2, res2) \<Rightarrow>
                snd (Build handle emptyMux s b) = res1 \<and>
                registeredPatterns (s2 ! ?r) = rp1 \<and>
                snd (Build handle emptyMux s2 b) = res2 \<and>
                registeredPatterns (fst (Build handle emptyMux s2 b) ! ?r) = rp2 \<and>
                (rp2, res2) = Build_patterns handle [] (registrations s2 visited2) rp1 emptyMux \<and>
                distinct visited2 \<and> hd visited2 = ?r \<and>
                (\<forall>t1. res1 = Inr t1 \<longrightarrow> executedBuild (s2 ! ?r)) \<and>
                (\<forall>t1 t2. res1 = Inr t1 \<and> res2 = Inr t2 \<longrightarrow>
                   visited2 = visited1 \<and>
                   rp1 = ?rp0 @ map fst (registrations s visited1) \<and>
                   rp2 = rp1 @ map fst (registrations s2 visited1) \<and>
                   mset (registrations s2 visited1) = mset (registrations s visited1)))"
    unfolding run1 run2 prod.case
    using first(1) rp_s2 second(1,2) second_loop(1,2,4) flag both
    by (intro conjI allI impI) blast+
next
  assume ca: "children_allocated s" and b: "b < length s" and root: "Root (s ! b) < length s"
    and re: "reordered (fst (Build strict_Handle [] s b)) s3"
  let ?strict = "strict_Handle :: ((string \<times> 'a) list, 'a, string) Handle"
  let ?r = "Root (s ! b)"
  let ?rp0 = "registeredPatterns (s ! ?r)"
  obtain visited1 rp1 res1 where run1: "Build_loop ?strict s [?r] [] ?rp0 [] = (visited1, rp1, res1)"
    using prod_cases3 by blast
  obtain visited2 rp2 res2 where run2: "Build_loop ?strict s3 [?r] [] rp1 [] = (visited2, rp2, res2)"
    using prod_cases3 by blast
  note first = Build_result [OF root run1]
  note first_loop = Build_loop_root [OF ca root run1]
  note r = reorderedD [OF re, unfolded first(3)]
  have len2: "length s3 = length s"
    by (rule r(1))
  have sub2: "\<forall>n<length s. SubServeMuxBuilder (s3 ! n) = SubServeMuxBuilder (s ! n)"
    by (simp add: r(5) first(7))
  have root2: "Root (s3 ! b) = ?r"
    using b by (simp add: r(3) first(4))
  have rp_s2: "registeredPatterns (s3 ! ?r) = rp1"
    using root by (simp add: r(6) first(2))
  have ca2: "children_allocated s3"
    by (rule children_allocated_same [OF ca len2]) (simp add: sub2)
  have root2': "Root (s3 ! b) < length s3"
    using root by (simp add: root2 len2)
  have run2': "Build_loop ?strict s3 [Root (s3 ! b)] [] (registeredPatterns (s3 ! Root (s3 ! b))) []
      = (visited2, rp2, res2)"
    using run2 by (simp add: root2 rp_s2)
  note second = Build_result [OF root2' run2', unfolded root2]
  note second_loop = Build_loop_root [OF ca2 root2' run2', unfolded root2 rp_s2 len2]
  show "\<forall>t1. snd (Build ?strict [] s b) = Inr t1 \<longrightarrow>
         (\<exists>t2. snd (Build ?strict [] s3 b) = Inr t2 \<and> mset t2 = mset t1)"
  proof (intro allI impI)
    fix t1
    assume "snd (Build ?strict [] s b) = Inr t1"
    with first(1) have res1: "res1 = Inr t1" by simp
    from Build_strict_result [OF ca root run1] res1
    have t1: "t1 = registrations s visited1" and "first_duplicate [] (map fst (registrations s visited1)) = None"
      by (simp_all split: option.splits)
    then have d1: "distinct (map fst (registrations s visited1))"
      by (simp add: first_duplicate_None)
    from Build_loop_order [OF len2 sub2 run1 [unfolded res1] run2]
    obtain rest where rest: "visited1 = visited2 @ rest" and full: "\<And>t2. res2 = Inr t2 \<Longrightarrow> visited2 = visited1"
      by blast
    from d1 rest have "distinct (map fst (registrations s visited2))"
      by (simp add: registrations_append)
    moreover have m: "mset (registrations s3 v) = mset (registrations s v)" if "\<forall>n \<in> set v. n < length s" for v
      using that by (intro mset_registrations) (simp_all add: r(2) r(4) first(5) first(6))
    from m [OF second_loop(3)]
    have "mset (map fst (registrations s3 visited2)) = mset (map fst (registrations s visited2))"
      by (metis mset_map)
    ultimately have "distinct (map fst (registrations s3 visited2))"
      by (metis mset_eq_imp_distinct_iff)
    then have "first_duplicate [] (map fst (registrations s3 visited2)) = None"
      by (simp add: first_duplicate_None)
    with Build_strict_result [OF ca2 root2' run2'] have res2: "res2 = Inr (registrations s3 visited2)"
      by simp
    from full [OF res2] have v: "visited2 = visited1" .
    from m [OF first_loop(3)] t1 have "mset (registrations s3 visited1) = mset t1"
      by simp
    with second(1) res2 v show "\<exists>t2. snd (Build ?strict [] s3 b) = Inr t2 \<and> mset t2 = mset t1"
      by simp
  qed
qed

text \<open>
  A root with two patterns, ranged as \<open>a\<close>, \<open>b\<close> by the first \<open>Build\<close> and as
  \<open>b\<close>, \<open>a\<close> by the second.
\<close>

theorem Build_twice_witness:
  "(children_allocated two_patterns \<and> 0 < length two_patterns
    \<and> Root (two_patterns ! 0) < length two_patterns
    \<and> reordered (fst (Build strict_Handle [] two_patterns 0)) two_patterns_other_order)
   \<and> map Patterns two_patterns = [[(''GET /v1/a'', [''a'']), (''GET /v1/b'', [''b''])]]
   \<and> map Patterns two_patterns_other_order = [[(''GET /v1/b'', [''b'']), (''GET /v1/a'', [''a''])]]
   \<and> snd (Build strict_Handle [] two_patterns 0)
       = Inr [(''GET /v1/a'', [''a'']), (''GET /v1/b'', [''b''])]
   \<and> executedBuild (two_patterns_other_order ! 0)
   \<and> snd (Build strict_Handle [] two_patterns_other_order 0)
       = Inr [(''GET /v1/b'', [''b'']), (''GET /v1/a'', [''a''])]
   \<and> registeredPatterns (fst (Build strict_Handle [] two_patterns_other_order 0) ! 0)
       = [''GET /v1/a'', ''GET /v1/b'', ''GET /v1/b'', ''GET /v1/a'']
   \<and> (\<exists>t2. snd (Build strict_Handle [] two_patterns_other_order 0) = Inr t2
          \<and> mset t2 = mset [(''GET /v1/a'', [''a'']), (''GET /v1/b'', [''b''])])"
proof -
  have hyp: "children_allocated two_patterns \<and> 0 < length two_patterns
    \<and> Root (two_patterns ! 0) < length two_patterns
    \<and> reordered (fst (Build strict_Handle [] two_patterns 0)) two_patterns_other_order"
    unfolding two_patterns_built_def [symmetric]
    by (simp add: two_patterns_eval two_patterns_built_eval two_patterns_other_order_eval
        children_allocated_def reordered_def)
  have root: "Root (two_patterns ! 0) = 0" "registeredPatterns (two_patterns ! 0) = []"
    by (simp_all add: two_patterns_eval)
  have pats: "map Patterns two_patterns = [[(''GET /v1/a'', [''a'']), (''GET /v1/b'', [''b''])]]"
    "map Patterns two_patterns_other_order = [[(''GET /v1/b'', [''b'']), (''GET /v1/a'', [''a''])]]"
    by (simp_all add: two_patterns_eval two_patterns_other_order_eval)
  note T = Build_twice
    [where s = two_patterns and b = 0 and handle = strict_Handle and emptyMux = "[]"
       and ?s2.0 = two_patterns_other_order and ?s3.0 = two_patterns_other_order]
  note T1 = T [THEN conjunct1, THEN mp, OF hyp]
  note T2 = T [THEN conjunct2, THEN conjunct1, THEN mp, OF hyp]
  from T1 have one: "snd (Build strict_Handle [] two_patterns 0)
       = Inr [(''GET /v1/a'', [''a'']), (''GET /v1/b'', [''b''])]
   \<and> executedBuild (two_patterns_other_order ! 0)
   \<and> snd (Build strict_Handle [] two_patterns_other_order 0)
       = Inr [(''GET /v1/b'', [''b'']), (''GET /v1/a'', [''a''])]
   \<and> registeredPatterns (fst (Build strict_Handle [] two_patterns_other_order 0) ! 0)
       = [''GET /v1/a'', ''GET /v1/b'', ''GET /v1/b'', ''GET /v1/a'']"
    by (simp only: root two_patterns_Build_loop prod.case two_patterns_other_order_Build_loop)
  then have res: "snd (Build strict_Handle [] two_patterns 0)
       = Inr [(''GET /v1/a'', [''a'']), (''GET /v1/b'', [''b''])]"
    by (rule conjunct1)
  note two = T2 [THEN spec, THEN mp, OF res]
  from hyp pats one two show ?thesis
    by blast
qed

text \<open>
  C4 as stated fails: the second \<open>Build\<close> of the scenario returns the table, not an
  error.
\<close>

theorem second_Build_succeeds:
  "snd (Build accept_Handle [] (fst (Build accept_Handle [] scenario_tree 0)) 0)
     = Inr [(''GET /v1/ping'', [''Auth'', ''ping'']),
            (''GET /v1/admin/secret'', [''Auth'', ''AdminOnly'', ''secret''])]
   \<and> registeredPatterns (fst (Build accept_Handle [] (fst (Build accept_Handle [] scenario_tree 0)) 0) ! 0)
     = [''GET /v1/ping'', ''GET /v1/admin/secret'', ''GET /v1/ping'', ''GET /v1/admin/secret'']"
  by (simp add: scenario_Build_twice)

text \<open>
  C5, as amended.  \<open>Pattern\<close> has no error result and rejects no string: the
  handler is stored under the method followed by the normalised prefix and path,
  whatever \<open>splitPattern\<close> makes of the string.  A string without a space is a path
  with no method; a string with one space is split there; of a string with two or
  more spaces only the first field is kept, as the path.  Nothing checks that the
  path starts with a separator.
\<close>

theorem Pattern_registers_every_string:
  "(b < length s \<longrightarrow>
      map_of (Patterns (Pattern s b [(pattern, h)] ! b))
        (fst (splitPattern pattern)
           @ removeDoubleSlash (PatternPrefix (Pattern s b [(pattern, h)] ! b) @ snd (splitPattern pattern)))
        = Some h) \<and>
   (space \<notin> set p \<longrightarrow> splitPattern p = ([], p)) \<and>
   (space \<notin> set m \<and> space \<notin> set q \<longrightarrow> splitPattern (m @ space # q) = (m @ [space], q)) \<and>
   (space \<notin> set f1 \<and> space \<notin> set f2 \<longrightarrow> splitPattern (f1 @ space # f2 @ space # rest) = ([], f1))"
  by (simp add: Pattern_single update_conv' splitPattern_no_space splitPattern_one_space
      splitPattern_more_spaces)

theorem Pattern_registers_every_string_witness:
  "(0 < length (fst (NewServeMuxBuilder ([] :: string list store)))
    \<and> space \<notin> set ''ping'' \<and> space \<notin> set ''GET'' \<and> space \<notin> set ''/a'')
   \<and> map_of (Patterns (Pattern (fst (NewServeMuxBuilder [])) 0 [(''ping'', [''h''])] ! 0)) ''ping''
        = Some [''h'']
   \<and> splitPattern ''ping'' = ([], ''ping'')
   \<and> splitPattern ''GET ping'' = (''GET '', ''ping'')
   \<and> splitPattern ''GET /a /b'' = ([], ''GET'')"
proof -
  have hyp: "0 < length (fst (NewServeMuxBuilder ([] :: string list store)))"
    "space \<notin> set ''ping''" "space \<notin> set ''GET'' \<and> space \<notin> set ''ping''"
    "space \<notin> set ''GET'' \<and> space \<notin> set ''/a''"
    by (simp_all add: NewServeMuxBuilder_def)
  note T = Pattern_registers_every_string
    [where b = 0 and s = "fst (NewServeMuxBuilder [])" and pattern = "''ping''" and h = "[''h'']"
       and p = "''ping''" and m = "''GET''" and q = "''ping''" and ?f1.0 = "''GET''" and ?f2.0 = "''/a''"
       and rest = "''/b''"]
  note t1 = T [THEN conjunct1, THEN mp, OF hyp(1)]
  note t2 = T [THEN conjunct2, THEN conjunct1, THEN mp, OF hyp(2)]
  note t3 = T [THEN conjunct2, THEN conjunct2, THEN conjunct1, THEN mp, OF hyp(3)]
  note t4 = T [THEN conjunct2, THEN conjunct2, THEN conjunct2, THEN mp, OF hyp(4)]
  have "PatternPrefix (Pattern (fst (NewServeMuxBuilder [])) 0 [(''ping'', [''h''])] ! 0) = []"
    by (simp add: eval_defs)
  with t1 t2 have "map_of (Patterns (Pattern (fst (NewServeMuxBuilder [])) 0 [(''ping'', [''h''])] ! 0)) ''ping''
        = Some [''h'']"
    by simp
  with hyp t2 t3 t4 show ?thesis
    by simp
qed

text \<open>
  C5 as stated fails: \<open>GET ping\<close>, whose path has no leading separator, is
  registered.
\<close>

theorem Pattern_accepts_path_without_slash:
  "Patterns (Pattern (fst (NewServeMuxBuilder [])) 0 [(''GET ping'', [''ping''])] ! 0)
     = [(''GET ping'', [''ping''])]"
  by (simp add: eval_defs)

text \<open>
  C6.  \<open>Subrouter\<close> of \<open>main.go\<close> copies the middlewares of the root, not those of
  the receiver: the subrouter of a subrouter that uses \<open>B\<close> under a root that uses
  \<open>A\<close> gets \<open>[A]\<close>, where the claim has the parent's chain \<open>[A, B]\<close>.
  (\<open>ServeMuxBuilder.Subrouter\<close> does copy the receiver's chain, and later \<open>Use\<close>
  calls do not reach the copy: lemma \<open>Subrouter_snapshot\<close>.)
\<close>

theorem Subrouter_x_copies_root_not_parent:
  "snd (main_router ([] :: string list xstore)) = 0
   \<and> map_option snd (Subrouter_x x_root 0) = Some 1
   \<and> map_option snd (Subrouter_x x_child 1) = Some 2
   \<and> map (\<lambda>m. m []) (middlewares_x (x_child ! 1)) = [[''A''], [''B'']]
   \<and> map_option (\<lambda>(s, g). map (\<lambda>m. m []) (middlewares_x (s ! g))) (Subrouter_x x_child 1)
        = Some [[''A'']]"
  by (simp add: x_eval)

text \<open>
  C7, as amended.  \<open>ServeMuxBuilder.Prefix\<close> stores the prefix with a leading
  separator and a second call replaces the first.  \<open>Mux.Prefix\<close> normalises the same
  way but appends to the prefix that the mux has, so a second call extends it.
\<close>

theorem Prefix_replaces_Mux_Prefix_appends:
  "(b < length s \<longrightarrow>
      PatternPrefix (Prefix s b p ! b) = leading_slash p \<and>
      PatternPrefix (Prefix (Prefix s b p) b q ! b) = leading_slash q) \<and>
   leading_slash p = (if p = [] then [] else if hd p = slash then p else slash # p) \<and>
   patternPrefix_m (Mux_Prefix mux p) = patternPrefix_m mux @ leading_slash p \<and>
   patternPrefix_m (Mux_Prefix (Mux_Prefix mux p) q)
     = patternPrefix_m mux @ leading_slash p @ leading_slash q"
  by (simp add: Prefix_def nth_set_PatternPrefix_same Mux_Prefix_def leading_slash_def)

theorem Prefix_replaces_Mux_Prefix_appends_witness:
  "0 < length (fst (NewServeMuxBuilder ([] :: string list store)))
   \<and> PatternPrefix (Prefix (fst (NewServeMuxBuilder ([] :: string list store))) 0 ''v1'' ! 0) = ''/v1''
   \<and> PatternPrefix (Prefix (Prefix (fst (NewServeMuxBuilder ([] :: string list store))) 0 ''v1'') 0 ''/v2'' ! 0)
        = ''/v2''"
proof -
  have hyp: "0 < length (fst (NewServeMuxBuilder ([] :: string list store)))"
    by (simp add: NewServeMuxBuilder_def)
  note T = Prefix_replaces_Mux_Prefix_appends
    [where b = 0 and s = "fst (NewServeMuxBuilder ([] :: string list store))" and p = "''v1''"
       and q = "''/v2''" and mux = "fst (NewMux ())", THEN conjunct1, THEN mp, OF hyp]
  from hyp T show ?thesis
    by (simp add: leading_slash_def)
qed

text \<open>
  C7 as stated fails for \<open>Mux.Prefix\<close>: after \<open>Prefix("a")\<close> and \<open>Prefix("b")\<close> the
  prefix is \<open>/a/b\<close>, not \<open>/b\<close>.
\<close>

theorem Mux_Prefix_accumulates:
  "patternPrefix_m (Mux_Prefix (Mux_Prefix (fst (NewMux ())) ''a'') ''b'') = ''/a/b''
   \<and> patternPrefix_m (Mux_Prefix (Mux_Prefix (fst (NewMux ())) ''a'') ''b'') \<noteq> ''/b''"
  by (simp add: NewMux_def Mux_Prefix_def leading_slash_def)

text \<open>
  C8.  \<open>Mux.Handle\<close> joins method, prefix and path as they are and passes the
  result to \<open>http.ServeMux.Handle\<close>: for the path \<open>//test\<close> under the prefix
  \<open>/v1//\<close> the pattern is \<open>/v1////test\<close>, whatever the dispatcher does with it, and
  when the dispatcher takes it, that is the pattern registered and recorded, where
  the claim has \<open>/v1/test\<close>.  (\<open>ServeMuxBuilder.Pattern\<close> does pass the joined path
  through \<open>removeDoubleSlash\<close>, whose result has no two separators in a row: lemmas
  \<open>no_double_slash_removeDoubleSlash\<close>, \<open>Pattern_key_no_double_slash\<close> and
  \<open>Pattern_collapses_slashes_example\<close>.)
\<close>

theorem Mux_Handle_keeps_double_slashes:
  "(\<forall>handle :: ((string \<times> string list) list, string list, string) Handle.
      Mux_Handle handle (snd (NewMux [])) (Mux_Prefix (fst (NewMux [])) ''/v1//'') ''//test'' [''test'']
        = (case handle [] ''/v1////test'' [''test''] of
             Inl e \<Rightarrow> Inl e
           | Inr m \<Rightarrow> Inr \<lparr>muxify = m, registeredPatterns_m = [''/v1////test'']\<rparr>))
   \<and> Mux_Handle strict_Handle (snd (NewMux [])) (Mux_Prefix (fst (NewMux [])) ''/v1//'')
        ''//test'' [''test'']
       = Inr \<lparr>muxify = [(''/v1////test'', [''test''])], registeredPatterns_m = [''/v1////test'']\<rparr>
   \<and> \<not> no_double_slash ''/v1////test''
   \<and> removeDoubleSlash ''/v1////test'' = ''/v1/test''"
  by (simp add: NewMux_def Mux_Prefix_def Mux_Handle_def strict_Handle_def leading_slash_def
      splitPattern_def newHandler_Nil Let_def split: sum.splits)

text \<open>
  C9.  \<open>Build_loop\<close> and \<open>Build_x_loop\<close> are total functions: their termination
  proofs above count the allocated nodes that are not yet visited, then the length of
  the queue.  On a store whose children are allocated, with any dispatcher, the list
  of the nodes that the loop marks as visited has no node twice and starts with the
  node where the traversal starts, and what \<open>Build\<close> registers and returns is what
  registering the patterns of these nodes, once each and in this order, gives: every
  node is processed at most once, also when it is in its own children list.  The
  first part is \<open>ServeMuxBuilder.Build\<close>, the second \<open>XXSMux.Build\<close>.
\<close>

theorem Build_visits_each_node_once:
  "(children_allocated s \<and> Root (s ! b) < length s \<longrightarrow>
     (case Build_loop handle s [Root (s ! b)] [] (registeredPatterns (s ! Root (s ! b))) emptyMux of
        (visited, rp, res) \<Rightarrow>
          distinct visited \<and> hd visited = Root (s ! b) \<and> (\<forall>n \<in> set visited. n < length s) \<and>
          (rp, res) = Build_patterns handle [] (registrations s visited)
                        (registeredPatterns (s ! Root (s ! b))) emptyMux \<and>
          snd (Build handle emptyMux s b) = res \<and>
          registeredPatterns (fst (Build handle emptyMux s b) ! Root (s ! b)) = rp)) \<and>
   (children_allocated_x xs \<and> mux < length xs \<longrightarrow>
     (case Build_x handle' defaultServeMux xs mux of
        (visited, res) \<Rightarrow>
          distinct visited \<and> hd visited = mux \<and> (\<forall>n \<in> set visited. n < length xs) \<and>
          res = Build_x_patterns handle' [] (registrations_x xs visited) defaultServeMux))"
proof (intro conjI impI; elim conjE)
  assume ca: "children_allocated s" and root: "Root (s ! b) < length s"
  obtain visited rp res where run:
    "Build_loop handle s [Root (s ! b)] [] (registeredPatterns (s ! Root (s ! b))) emptyMux
       = (visited, rp, res)"
    using prod_cases3 by blast
  note f = Build_loop_root [OF ca root run] Build_result(1,2) [OF root run]
  show "case Build_loop handle s [Root (s ! b)] [] (registeredPatterns (s ! Root (s ! b))) emptyMux of
        (visited, rp, res) \<Rightarrow>
          distinct visited \<and> hd visited = Root (s ! b) \<and> (\<forall>n \<in> set visited. n < length s) \<and>
          (rp, res) = Build_patterns handle [] (registrations s visited)
                        (registeredPatterns (s ! Root (s ! b))) emptyMux \<and>
          snd (Build handle emptyMux s b) = res \<and>
          registeredPatterns (fst (Build handle emptyMux s b) ! Root (s ! b)) = rp"
    unfolding run prod.case by (intro conjI f)
next
  assume ca: "children_allocated_x xs" and mux: "mux < length xs"
  obtain visited res where run: "Build_x handle' defaultServeMux xs mux = (visited, res)"
    by (cases "Build_x handle' defaultServeMux xs mux")
  note f = Build_x_visits [OF ca mux run]
  show "case Build_x handle' defaultServeMux xs mux of
        (visited, res) \<Rightarrow>
          distinct visited \<and> hd visited = mux \<and> (\<forall>n \<in> set visited. n < length xs) \<and>
          res = Build_x_patterns handle' [] (registrations_x xs visited) defaultServeMux"
    unfolding run prod.case by (intro conjI f)
qed

text \<open>
  The scenario in both variants, where each of the two nodes is its own child: the
  loop visits the root, then the subrouter, and registers the pattern of each once.
\<close>

theorem Build_visits_each_node_once_witness:
  "(children_allocated scenario_tree \<and> Root (scenario_tree ! 0) < length scenario_tree)
   \<and> map SubServeMuxBuilder scenario_tree = [[0, 1], [1]]
   \<and> Build_loop accept_Handle scenario_tree [0] [] [] []
       = ([0, 1], [''GET /v1/ping'', ''GET /v1/admin/secret''],
          Inr [(''GET /v1/ping'', [''Auth'', ''ping'']),
               (''GET /v1/admin/secret'', [''Auth'', ''AdminOnly'', ''secret''])])
   \<and> distinct [0, 1 :: nat]
   \<and> snd (Build accept_Handle [] scenario_tree 0)
       = Inr [(''GET /v1/ping'', [''Auth'', ''ping'']),
              (''GET /v1/admin/secret'', [''Auth'', ''AdminOnly'', ''secret''])]
   \<and> registeredPatterns (fst (Build accept_Handle [] scenario_tree 0) ! 0)
       = [''GET /v1/ping'', ''GET /v1/admin/secret'']
   \<and> (children_allocated_x x_scenario \<and> 0 < length x_scenario)
   \<and> map subXXSMux x_scenario = [[0, 1], [1]]
   \<and> Build_x accept_Handle [] x_scenario 0
       = ([0, 1], Inr [(''/v1/ping'', [''A'', ''ping'']),
                       (''/v1/admin/secret'', [''B'', ''A'', ''secret''])])
   \<and> Build_x_patterns accept_Handle [] (registrations_x x_scenario [0, 1]) []
       = Inr [(''/v1/ping'', [''A'', ''ping'']), (''/v1/admin/secret'', [''B'', ''A'', ''secret''])]"
proof -
  have hyp: "children_allocated scenario_tree \<and> Root (scenario_tree ! 0) < length scenario_tree"
    by (simp add: scenario_tree_eval children_allocated_def)
  have subs: "map SubServeMuxBuilder scenario_tree = [[0, 1], [1]]"
    by (simp add: scenario_tree_eval)
  have root: "Root (scenario_tree ! 0) = 0" "registeredPatterns (scenario_tree ! 0) = []"
    by (simp_all add: scenario_tree_eval)
  have hypx: "children_allocated_x x_scenario \<and> 0 < length x_scenario"
    by (simp add: x_scenario_eval children_allocated_x_def)
  have subsx: "map subXXSMux x_scenario = [[0, 1], [1]]"
    by (simp add: x_scenario_eval)
  note T = Build_visits_each_node_once
    [where s = scenario_tree and b = 0 and emptyMux = "[]" and handle = accept_Handle
       and xs = x_scenario and mux = 0 and handle' = accept_Handle and defaultServeMux = "[]"]
  note T1 = T [THEN conjunct1, THEN mp, OF hyp]
  note T2 = T [THEN conjunct2, THEN mp, OF hypx]
  from T1 have b: "distinct [0, 1 :: nat]
      \<and> snd (Build accept_Handle [] scenario_tree 0)
         = Inr [(''GET /v1/ping'', [''Auth'', ''ping'']),
              (''GET /v1/admin/secret'', [''Auth'', ''AdminOnly'', ''secret''])]
      \<and> registeredPatterns (fst (Build accept_Handle [] scenario_tree 0) ! 0)
         = [''GET /v1/ping'', ''GET /v1/admin/secret'']"
    by (simp add: root scenario_Build_loop)
  from T2 have x: "Build_x_patterns accept_Handle [] (registrations_x x_scenario [0, 1]) []
       = Inr [(''/v1/ping'', [''A'', ''ping'']), (''/v1/admin/secret'', [''B'', ''A'', ''secret''])]"
    by (simp only: x_scenario_Build prod.case)
  from hyp subs scenario_Build_loop b hypx subsx x_scenario_Build x show ?thesis
    by blast
qed

text \<open>
  C10, as amended.  \<open>Pattern\<close> overwrites the stored prefix of the receiver with
  \<open>Pattern_base\<close> followed by the prefix it had.  For the root the base is empty and
  the stored prefix stays the fragment that \<open>Prefix\<close> set.  For a child of the root
  the base is the root's prefix, and a second \<open>Pattern\<close> call on the child starts
  from the stored value, so the root's prefix is there twice.  \<open>Subrouter\<close> does not
  read the prefix: it commutes with a change of it.  In \<open>XXSMux.Pattern\<close> the base
  ends with a slash, so it is never empty: every call that returns has changed the
  stored prefix.
\<close>

theorem Pattern_overwrites_PatternPrefix:
  "(b < length s \<longrightarrow>
      PatternPrefix (Pattern s b ps ! b) = Pattern_base s b @ PatternPrefix (s ! b) \<and>
      Subrouter (set_PatternPrefix s b p) b
        = (set_PatternPrefix (fst (Subrouter s b)) b p, snd (Subrouter s b))) \<and>
   (r < length s \<and> Root (s ! r) = r \<and> Parent (s ! r) = r \<longrightarrow>
      PatternPrefix (Pattern s r ps ! r) = PatternPrefix (s ! r)) \<and>
   (c < length s \<and> Parent (s ! c) = Root (s ! c) \<and> Root (s ! c) \<noteq> c \<longrightarrow>
      PatternPrefix (Pattern s c ps ! c) = PatternPrefix (s ! Root (s ! c)) @ PatternPrefix (s ! c) \<and>
      PatternPrefix (Pattern (Pattern s c ps) c qs ! c)
        = PatternPrefix (s ! Root (s ! c)) @ PatternPrefix (s ! Root (s ! c)) @ PatternPrefix (s ! c)) \<and>
   (mux < length xs \<and> Pattern_x xs mux xps = Some xs' \<longrightarrow>
      (\<exists>base. base \<noteq> [] \<and> patternPrefix_x (xs' ! mux) = base @ patternPrefix_x (xs ! mux)))"
proof (intro conjI impI)
  assume "b < length s"
  then show "PatternPrefix (Pattern s b ps ! b) = Pattern_base s b @ PatternPrefix (s ! b)"
    by (rule Pattern_prefix)
next
  assume "b < length s"
  then show "Subrouter (set_PatternPrefix s b p) b
        = (set_PatternPrefix (fst (Subrouter s b)) b p, snd (Subrouter s b))"
    by (rule Subrouter_ignores_PatternPrefix)
next
  assume "r < length s \<and> Root (s ! r) = r \<and> Parent (s ! r) = r"
  then show "PatternPrefix (Pattern s r ps ! r) = PatternPrefix (s ! r)"
    by (simp add: Pattern_prefix Pattern_base_root)
next
  assume "c < length s \<and> Parent (s ! c) = Root (s ! c) \<and> Root (s ! c) \<noteq> c"
  then show "PatternPrefix (Pattern s c ps ! c) = PatternPrefix (s ! Root (s ! c)) @ PatternPrefix (s ! c)"
    by (simp add: Pattern_prefix Pattern_base_root_child)
next
  assume "c < length s \<and> Parent (s ! c) = Root (s ! c) \<and> Root (s ! c) \<noteq> c"
  then show "PatternPrefix (Pattern (Pattern s c ps) c qs ! c)
        = PatternPrefix (s ! Root (s ! c)) @ PatternPrefix (s ! Root (s ! c)) @ PatternPrefix (s ! c)"
    by (simp add: Pattern_twice_root_child)
next
  assume "mux < length xs \<and> Pattern_x xs mux xps = Some xs'"
  then show "\<exists>base. base \<noteq> [] \<and> patternPrefix_x (xs' ! mux) = base @ patternPrefix_x (xs ! mux)"
    using Pattern_x_prefix by blast
qed

theorem Pattern_overwrites_PatternPrefix_witness:
  "(1 < length two_level_tree \<and> 0 < length two_level_tree
    \<and> Root (two_level_tree ! 0) = 0 \<and> Parent (two_level_tree ! 0) = 0
    \<and> Parent (two_level_tree ! 1) = Root (two_level_tree ! 1) \<and> Root (two_level_tree ! 1) \<noteq> 1)
   \<and> PatternPrefix (two_level_tree ! 0) = ''/v1''
   \<and> PatternPrefix (Pattern two_level_tree 0 [(''GET /ping'', [''ping''])] ! 0) = ''/v1''
   \<and> PatternPrefix (two_level_tree ! 1) = ''/a''
   \<and> PatternPrefix (Pattern two_level_tree 1 [(''GET /x'', [''x''])] ! 1) = ''/v1/a''
   \<and> PatternPrefix (Pattern (Pattern two_level_tree 1 [(''GET /x'', [''x''])]) 1 [(''GET /y'', [''y''])] ! 1)
       = ''/v1/v1/a''
   \<and> (0 < length x_v1 \<and> Pattern_x x_v1 0 [(''GET /ping'', [''ping''])] \<noteq> None)
   \<and> (\<exists>base. base \<noteq> [] \<and>
         patternPrefix_x (the (Pattern_x x_v1 0 [(''GET /ping'', [''ping''])]) ! 0)
           = base @ patternPrefix_x (x_v1 ! 0))
   \<and> patternPrefix_x (x_v1 ! 0) = ''v1''
   \<and> patternPrefix_x (the (Pattern_x x_v1 0 [(''GET /ping'', [''ping''])]) ! 0) = ''/v1''"
proof -
  have e: "length two_level_tree = 2"
    "Root (two_level_tree ! 0) = 0" "Parent (two_level_tree ! 0) = 0"
    "Root (two_level_tree ! 1) = 0" "Parent (two_level_tree ! 1) = 0"
    "PatternPrefix (two_level_tree ! 0) = ''/v1''" "PatternPrefix (two_level_tree ! 1) = ''/a''"
    "Root (two_level_tree ! Suc 0) = 0" "Parent (two_level_tree ! Suc 0) = 0"
    "PatternPrefix (two_level_tree ! Suc 0) = ''/a''"
    by (simp_all add: eval_defs)
  have root: "0 < length two_level_tree \<and> Root (two_level_tree ! 0) = 0 \<and> Parent (two_level_tree ! 0) = 0"
    and child: "1 < length two_level_tree \<and> Parent (two_level_tree ! 1) = Root (two_level_tree ! 1)
       \<and> Root (two_level_tree ! 1) \<noteq> 1"
    by (simp_all add: e)
  obtain xs' where xs': "Pattern_x x_v1 0 [(''GET /ping'', [''ping''])] = Some xs'"
    using x_v1_Pattern(3) by auto
  have x: "0 < length x_v1 \<and> Pattern_x x_v1 0 [(''GET /ping'', [''ping''])] = Some xs'"
    using xs' x_v1_Pattern(1) by simp
  note T = Pattern_overwrites_PatternPrefix
         [where b = 1 and s = two_level_tree and r = 0 and c = 1 and p = "[]"
            and xs = x_v1 and mux = 0 and xps = "[(''GET /ping'', [''ping''])]" and xs' = xs']
  note r = T [THEN conjunct2, THEN conjunct1, THEN mp, OF root]
  note c = T [THEN conjunct2, THEN conjunct2, THEN conjunct1, THEN mp, OF child]
  note m = T [THEN conjunct2, THEN conjunct2, THEN conjunct2, THEN mp, OF x]
  have tree: "(1 < length two_level_tree \<and> 0 < length two_level_tree
    \<and> Root (two_level_tree ! 0) = 0 \<and> Parent (two_level_tree ! 0) = 0
    \<and> Parent (two_level_tree ! 1) = Root (two_level_tree ! 1) \<and> Root (two_level_tree ! 1) \<noteq> 1)
   \<and> PatternPrefix (two_level_tree ! 0) = ''/v1''
   \<and> PatternPrefix (Pattern two_level_tree 0 [(''GET /ping'', [''ping''])] ! 0) = ''/v1''
   \<and> PatternPrefix (two_level_tree ! 1) = ''/a''
   \<and> PatternPrefix (Pattern two_level_tree 1 [(''GET /x'', [''x''])] ! 1) = ''/v1/a''
   \<and> PatternPrefix (Pattern (Pattern two_level_tree 1 [(''GET /x'', [''x''])]) 1 [(''GET /y'', [''y''])] ! 1)
       = ''/v1/v1/a''"
    using root child r [of "[(''GET /ping'', [''ping''])]"]
      c [of "[(''GET /x'', [''x''])]" "[(''GET /y'', [''y''])]"]
    by (simp add: e)
  have xx: "(0 < length x_v1 \<and> Pattern_x x_v1 0 [(''GET /ping'', [''ping''])] \<noteq> None)
   \<and> (\<exists>base. base \<noteq> [] \<and>
         patternPrefix_x (the (Pattern_x x_v1 0 [(''GET /ping'', [''ping''])]) ! 0)
           = base @ patternPrefix_x (x_v1 ! 0))
   \<and> patternPrefix_x (x_v1 ! 0) = ''v1''
   \<and> patternPrefix_x (the (Pattern_x x_v1 0 [(''GET /ping'', [''ping''])]) ! 0) = ''/v1''"
    using m x x_v1_Pattern(2,3) by (simp add: xs')
  from tree xx show ?thesis
    by blast
qed

text \<open>
  C10 as stated fails at the root: after \<open>Prefix("v1")\<close> and a \<open>Pattern\<close> call the
  stored prefix is still \<open>/v1\<close>.
\<close>

theorem root_PatternPrefix_unchanged_by_Pattern:
  "PatternPrefix (Prefix (fst (NewServeMuxBuilder [])) 0 ''v1'' ! 0) = ''/v1''
   \<and> PatternPrefix
        (Pattern (Prefix (fst (NewServeMuxBuilder [])) 0 ''v1'') 0 [(''GET /ping'', [''ping''])] ! 0)
       = ''/v1''"
  by (simp add: eval_defs)

end
